theory Spec2Isabelle
  imports Main "HOL-Library.List_Lexorder" "HOL-Library.Product_Lexorder" "HOL-Library.Multiset"
    "HOL-Library.Extended_Nat"
begin

section \<open>Buffers, errors and the shrinker's order\<close>

text \<open>
  A buffer is a Python \<open>bytes\<close> value: a list of integers below 256. Python exceptions
  are values of \<open>error\<close>; a computation that may raise returns \<open>error + 'a\<close>.
\<close>

type_synonym buffer = "nat list"

datatype message = NotAllowedToLearn buffer buffer | TooHardToLearn

datatype error = AssertionError | IndexError | ValueError | FailedToNormalise message

text \<open>
  Modelled from the spec: \<open>sort_key\<close> is imported by \<open>normalize\<close> from the shrinker module,
  which is not among the sources. It is the shortlex key: the length first, then the bytes
  in lexicographic order (pairs and lists are compared lexicographically, as Python tuples
  and \<open>bytes\<close> are).
\<close>

definition sort_key_bytes :: "buffer \<Rightarrow> nat \<times> buffer" where
  "sort_key_bytes b = (length b, b)"

text \<open>\<open>sorted((a, b), key=sort_key)\<close> is stable: \<open>a\<close> stays first unless \<open>b\<close> is strictly smaller.\<close>

definition sorted_pair :: "buffer \<Rightarrow> buffer \<Rightarrow> buffer \<times> buffer" where
  "sorted_pair a b = (if sort_key_bytes b < sort_key_bytes a then (b, a) else (a, b))"

definition startswith :: "buffer \<Rightarrow> buffer \<Rightarrow> bool" where
  "startswith s p = (take (length p) s = p)"

definition endswith :: "buffer \<Rightarrow> buffer \<Rightarrow> bool" where
  "endswith s p = (length p \<le> length s \<and> drop (length s - length p) s = p)"

text \<open>\<open>s[a:b]\<close> for indices \<open>0 \<le> a\<close> and \<open>0 \<le> b\<close>: empty when \<open>b \<le> a\<close>, clipped at the end.\<close>

definition slice :: "buffer \<Rightarrow> nat \<Rightarrow> nat \<Rightarrow> buffer" where
  "slice s a b = take (b - a) (drop a s)"

section \<open>The common prefix and suffix of two diverging buffers\<close>

text \<open>
  \<^verbatim>\<open>i = 0
while u[i] == v[i]:
    i += 1\<close>
  An index \<open>i\<close> with \<open>i \<ge> len(u)\<close> or \<open>i \<ge> len(v)\<close> raises \<open>IndexError\<close>.
\<close>

function prefix_loop :: "buffer \<Rightarrow> buffer \<Rightarrow> nat \<Rightarrow> error + nat" where
  "prefix_loop u v i =
     (if length u \<le> i \<or> length v \<le> i then Inl IndexError
      else if u ! i = v ! i then prefix_loop u v (i + 1)
      else Inr i)"
  by pat_completeness auto
termination
  by (relation "measure (\<lambda>(u, v, i). length u - i)") auto

text \<open>
  \<^verbatim>\<open>i = 1
while u[-i] == v[-i]:
    i += 1\<close>
  For \<open>i \<ge> 1\<close> the index \<open>-i\<close> denotes position \<open>len(u) - i\<close> and raises \<open>IndexError\<close> when
  \<open>i > len(u)\<close>.
\<close>

function suffix_loop :: "buffer \<Rightarrow> buffer \<Rightarrow> nat \<Rightarrow> error + nat" where
  "suffix_loop u v i =
     (if length u < i \<or> length v < i then Inl IndexError
      else if u ! (length u - i) = v ! (length v - i) then suffix_loop u v (i + 1)
      else Inr i)"
  by pat_completeness auto
termination
  by (relation "measure (\<lambda>(u, v, i). Suc (length u) - i)") auto

declare prefix_loop.simps [simp del]
declare suffix_loop.simps [simp del]

text \<open>
  Lines 179 to 198 of \<open>normalize\<close>: the two loops, the slices and the six assertions. The
  result is \<open>(prefix, suffix, u_core, v_core)\<close>. When the second loop ends normally
  \<open>1 \<le> i \<le> len(u)\<close>, so \<open>len(u) + 1 - i\<close> is a positive index.
\<close>

definition strip_common :: "buffer \<Rightarrow> buffer \<Rightarrow> error + (buffer \<times> buffer \<times> buffer \<times> buffer)" where
  "strip_common u v =
     (case prefix_loop u v 0 of
        Inl e \<Rightarrow> Inl e
      | Inr i \<Rightarrow>
          let prefix = take i u in
          if \<not> startswith u prefix then Inl AssertionError
          else if \<not> startswith v prefix then Inl AssertionError
          else
            (case suffix_loop u v 1 of
               Inl e \<Rightarrow> Inl e
             | Inr j \<Rightarrow>
                 let suffix = drop (length u + 1 - j) u in
                 if \<not> endswith u suffix then Inl AssertionError
                 else if \<not> endswith v suffix then Inl AssertionError
                 else
                   let u_core = slice u (length prefix) (length u - length suffix);
                       v_core = slice v (length prefix) (length v - length suffix)
                   in if u \<noteq> prefix @ u_core @ suffix then Inl AssertionError
                      else if v \<noteq> prefix @ v_core @ suffix then Inl AssertionError
                      else Inr (prefix, suffix, u_core, v_core)))"

section \<open>The registry file\<close>

text \<open>
  Python text is a list of code points. \<open>str\<close> turns a literal into text.
\<close>

type_synonym pystr = "nat list"

definition str :: "string \<Rightarrow> pystr" where
  "str s = map of_char s"

text \<open>
  \<open>str.splitlines()\<close>: a line ends at a line boundary, \<open>\r\n\<close> counts as one boundary, and
  a boundary at the very end opens no further line. The boundaries are the code points
  LF, VT, FF, CR, FS, GS, RS, NEL, LS and PS.
\<close>

definition linebreak :: "nat \<Rightarrow> bool" where
  "linebreak c = (c \<in> set [10, 11, 12, 13, 28, 29, 30, 133, 8232, 8233])"

fun splitlines_from :: "pystr \<Rightarrow> pystr \<Rightarrow> pystr list" where
  "splitlines_from cur [] = (if cur = [] then [] else [cur])"
| "splitlines_from cur (c # cs) =
     (if c = 13 \<and> cs \<noteq> [] \<and> hd cs = 10 then cur # splitlines_from [] (tl cs)
      else if linebreak c then cur # splitlines_from [] cs
      else splitlines_from (cur @ [c]) cs)"

definition splitlines :: "pystr \<Rightarrow> pystr list" where
  "splitlines s = splitlines_from [] s"

text \<open>\<open>sep.join(ls)\<close>\<close>

fun join :: "pystr \<Rightarrow> pystr list \<Rightarrow> pystr" where
  "join sep [] = []"
| "join sep [l] = l"
| "join sep (l # ls) = l @ sep @ join sep ls"

text \<open>\<open>ls.index(x)\<close>: the first position of \<open>x\<close>, \<open>ValueError\<close> when there is none.\<close>

fun index :: "'a list \<Rightarrow> 'a \<Rightarrow> error + nat" where
  "index [] x = Inl ValueError"
| "index (y # ys) x =
     (if y = x then Inr 0
      else (case index ys x of Inl e \<Rightarrow> Inl e | Inr i \<Rightarrow> Inr (i + 1)))"

text \<open>
  The file of learned automata: its contents and the number of times it has been written.
\<close>

record learned_dfa_file =
  contents :: pystr
  writes :: nat

text \<open>
  \<open>SHRINKING_DFAS\<close> is a dictionary from names to automata, kept as an association list in
  insertion order. \<open>%r\<close> of a name and of an automaton are taken as parameters \<open>repr_name\<close>
  and \<open>repr_dfa\<close>. Dictionary keys are distinct, so sorting the items sorts them by name.
\<close>

type_synonym 'd registry = "(pystr \<times> 'd) list"

definition entry_line :: "(pystr \<Rightarrow> pystr) \<Rightarrow> ('d \<Rightarrow> pystr) \<Rightarrow> pystr \<times> 'd \<Rightarrow> pystr" where
  "entry_line repr_name repr_dfa kv =
     str ''SHRINKING_DFAS['' @ repr_name (fst kv) @ str ''] = '' @ repr_dfa (snd kv)
       @ str '' # noqa: E501''"

definition marker :: pystr where
  "marker = str ''# AUTOGENERATED BEGINS''"

definition new_lines ::
  "(pystr \<Rightarrow> pystr) \<Rightarrow> ('d \<Rightarrow> pystr) \<Rightarrow> 'd registry \<Rightarrow> pystr list \<Rightarrow> nat \<Rightarrow> pystr list" where
  "new_lines repr_name repr_dfa dfas lines i =
     take (i + 1) lines @ [[], str ''# fmt: off'', []]
       @ map (entry_line repr_name repr_dfa) (sort_key fst dfas)
       @ [[], str ''# fmt: on'']"

definition update_learned_dfas ::
  "(pystr \<Rightarrow> pystr) \<Rightarrow> ('d \<Rightarrow> pystr) \<Rightarrow> 'd registry \<Rightarrow> learned_dfa_file
     \<Rightarrow> error + learned_dfa_file" where
  "update_learned_dfas repr_name repr_dfa dfas f =
     (let source = contents f;
          lines = splitlines source
      in case index lines marker of
           Inl e \<Rightarrow> Inl e
         | Inr i \<Rightarrow>
             let new_source = join [10] (new_lines repr_name repr_dfa dfas lines i) @ [10]
             in if new_source \<noteq> source
                then Inr (f\<lparr>contents := new_source, writes := writes f + 1\<rparr>)
                else Inr f)"

section \<open>The normalization driver\<close>

text \<open>
  Modelled from the spec: \<open>Status\<close> belongs to the engine's data module, which is not among
  the sources. The driver compares statuses with \<open><\<close>; \<open>INTERESTING\<close> is the greatest.
\<close>

datatype status = OVERRUN | INVALID | VALID | INTERESTING

fun status_value :: "status \<Rightarrow> nat" where
  "status_value OVERRUN = 0"
| "status_value INVALID = 1"
| "status_value VALID = 2"
| "status_value INTERESTING = 3"

record 'o conjecture_result =
  status :: status
  interesting_origin :: 'o
  buffer :: buffer
  has_discards :: bool

text \<open>
  The collaborators of \<open>normalize\<close> are parameters. \<open>'r\<close> is the state of the
  \<open>ConjectureRunner\<close> (its cache, its random generator, its interesting examples), threaded
  through every call; \<open>'d\<close> is the type of automata.
  \<^item> \<open>cached_test_function r buf extend\<close> is \<open>runner.cached_test_function(buf, extend=extend)\<close>;
  \<^item> \<open>shrink r d p\<close> is \<open>runner.shrink(d, p)\<close>;
  \<^item> \<open>interesting_examples r t\<close> is \<open>runner.interesting_examples[t]\<close>;
  \<^item> \<open>learn r oracle u_core v_core\<close> is lines 229 to 247: the \<open>LStar\<close> learner with the
    membership oracle, run until its generation stops changing, then
    \<open>learner.dfa.canonicalise()\<close>; \<open>None\<close> when that loop never ends;
  \<^item> \<open>digest d\<close> is \<open>hashlib.sha1(repr(d).encode("utf-8")).hexdigest()[:10]\<close>.
\<close>

record ('r, 'o, 'd) engine =
  cached_test_function :: "'r \<Rightarrow> buffer \<Rightarrow> nat \<Rightarrow> 'o conjecture_result \<times> 'r"
  BUFFER_SIZE :: nat
  shrink :: "'r \<Rightarrow> 'o conjecture_result \<Rightarrow> ('o conjecture_result \<Rightarrow> bool)
               \<Rightarrow> 'o conjecture_result \<times> 'r"
  interesting_examples :: "'r \<Rightarrow> 'o \<Rightarrow> 'o conjecture_result"
  learn :: "'r \<Rightarrow> ('r \<Rightarrow> buffer \<Rightarrow> bool \<times> 'r) \<Rightarrow> buffer \<Rightarrow> buffer \<Rightarrow> ('d \<times> 'r) option"
  digest :: "'d \<Rightarrow> pystr"
  repr_name :: "pystr \<Rightarrow> pystr"
  repr_dfa :: "'d \<Rightarrow> pystr"

text \<open>The arguments of \<open>normalize\<close>.\<close>

record config =
  base_name :: pystr
  required_successes :: int
  allowed_to_update :: bool
  max_dfas :: int

text \<open>The local variables of \<open>normalize\<close>, the runner and the global \<open>SHRINKING_DFAS\<close>.\<close>

record ('r, 'o, 'd) session =
  runner :: 'r
  seen :: "'o \<rightharpoonup> 'o conjecture_result"
  dfas_added :: int
  found_interesting :: bool
  consecutive_successes :: int
  failures_to_find_interesting :: int
  SHRINKING_DFAS :: "'d registry"

definition is_valid_core ::
  "('r, 'o, 'd) engine \<Rightarrow> 'o \<Rightarrow> buffer \<Rightarrow> buffer \<Rightarrow> bool \<Rightarrow> 'r \<Rightarrow> buffer \<Rightarrow> bool \<times> 'r" where
  "is_valid_core E target prefix suffix allow_discards r s =
     (let buf = prefix @ s @ suffix;
          (result, r') = cached_test_function E r buf 0
      in (status result = INTERESTING \<and> interesting_origin result = target
            \<and> buffer result = buf \<and> (allow_discards \<or> \<not> has_discards result), r'))"

text \<open>What one pass through the body of a loop leads to.\<close>

datatype ('s, 'a, 'o) outer_step = Continue 's | Enter 's 'a 'o | OuterRaise error 's

datatype 's inner_step = Break 's | Again 's | InnerRaise error 's | Hang

text \<open>Lines 118 to 128: one attempt of the outer loop.\<close>

definition outer_body ::
  "('r, 'o, 'd) engine \<Rightarrow> ('r, 'o, 'd) session
     \<Rightarrow> (('r, 'o, 'd) session, 'o conjecture_result, 'o) outer_step" where
  "outer_body E s =
     (let (attempt, r) = cached_test_function E (runner s) [] (BUFFER_SIZE E);
          s1 = s\<lparr>runner := r\<rparr>
      in if status_value (status attempt) < status_value INTERESTING then
           let s2 = s1\<lparr>failures_to_find_interesting := failures_to_find_interesting s1 + 1\<rparr>
           in if \<not> (found_interesting s2 \<or> failures_to_find_interesting s2 \<le> 1000)
              then OuterRaise AssertionError s2
              else Continue s2
         else Enter (s1\<lparr>found_interesting := True\<rparr>) attempt (interesting_origin attempt))"

text \<open>
  Lines 166 to 261: learning an automaton from the diverging buffers \<open>u\<close> and \<open>v\<close>, once the
  two budget checks have passed.
\<close>

definition learn_new_dfa ::
  "('r, 'o, 'd) engine \<Rightarrow> config \<Rightarrow> ('r, 'o, 'd) session \<Rightarrow> 'o \<Rightarrow> bool \<Rightarrow> buffer \<Rightarrow> buffer
     \<Rightarrow> ('r, 'o, 'd) session inner_step" where
  "learn_new_dfa E C s target allow_discards u v =
     (let s3 = s\<lparr>dfas_added := dfas_added s + 1\<rparr>
      in if startswith v u then InnerRaise AssertionError s3
         else
           (case strip_common u v of
              Inl e \<Rightarrow> InnerRaise e s3
            | Inr (prefix, suffix, u_core, v_core) \<Rightarrow>
                if \<not> sort_key_bytes u_core < sort_key_bytes v_core then InnerRaise AssertionError s3
                else
                  let oracle = is_valid_core E target prefix suffix allow_discards;
                      (ok_u, r1) = oracle (runner s3) u_core
                  in if \<not> ok_u then InnerRaise AssertionError (s3\<lparr>runner := r1\<rparr>)
                     else
                       let (ok_v, r2) = oracle r1 v_core
                       in if \<not> ok_v then InnerRaise AssertionError (s3\<lparr>runner := r2\<rparr>)
                          else
                            (case learn E r2 oracle u_core v_core of
                               None \<Rightarrow> Hang
                             | Some (new_dfa, r3) \<Rightarrow>
                                 let name = base_name C @ str ''-'' @ digest E new_dfa;
                                     s4 = s3\<lparr>runner := r3\<rparr>
                                 in if name \<in> fst ` set (SHRINKING_DFAS s4)
                                    then InnerRaise AssertionError s4
                                    else Again (s4\<lparr>SHRINKING_DFAS := SHRINKING_DFAS s4 @ [(name, new_dfa)],
                                                 seen := (seen s4)(target \<mapsto> interesting_examples E r3 target)\<rparr>))))"

text \<open>
  \<open>runner.shrink(attempt, lambda d: d.status == Status.INTERESTING and
  d.interesting_origin == target)\<close>
\<close>

definition target_shrink ::
  "('r, 'o, 'd) engine \<Rightarrow> 'r \<Rightarrow> 'o conjecture_result \<Rightarrow> 'o \<Rightarrow> 'o conjecture_result \<times> 'r" where
  "target_shrink E r attempt target =
     shrink E r attempt (\<lambda>d. status d = INTERESTING \<and> interesting_origin d = target)"

text \<open>Lines 135 to 166: one pass of the inner loop, up to the decision to learn.\<close>

definition inner_body ::
  "('r, 'o, 'd) engine \<Rightarrow> config \<Rightarrow> ('r, 'o, 'd) session \<Rightarrow> 'o conjecture_result \<Rightarrow> 'o
     \<Rightarrow> ('r, 'o, 'd) session inner_step" where
  "inner_body E C s attempt target =
     (let (shrunk, r) = target_shrink E (runner s) attempt target;
          s1 = s\<lparr>runner := r\<rparr>
      in case seen s1 target of
           None \<Rightarrow> Break (s1\<lparr>seen := (seen s1)(target \<mapsto> shrunk)\<rparr>)
         | Some existing \<Rightarrow>
             if buffer shrunk = buffer existing
             then Break (s1\<lparr>consecutive_successes := consecutive_successes s1 + 1\<rparr>)
             else
               let s2 = s1\<lparr>consecutive_successes := 0\<rparr>;
                   (u, v) = sorted_pair (buffer shrunk) (buffer existing)
               in if \<not> allowed_to_update C
                  then InnerRaise (FailedToNormalise (NotAllowedToLearn v u)) s2
                  else if max_dfas C \<le> dfas_added s2
                  then InnerRaise (FailedToNormalise TooHardToLearn) s2
                  else learn_new_dfa E C s2 target
                         (has_discards shrunk \<or> has_discards existing) u v)"

text \<open>
  The two loops. Each pass through either loop takes one unit of fuel; \<open>None\<close> means that the
  fuel ran out or that the learner never came back.
\<close>

datatype outcome = Returned | Raised error

fun normalize_outer ::
  "nat \<Rightarrow> ('r, 'o, 'd) engine \<Rightarrow> config \<Rightarrow> ('r, 'o, 'd) session
     \<Rightarrow> (outcome \<times> ('r, 'o, 'd) session) option"
and normalize_inner ::
  "nat \<Rightarrow> ('r, 'o, 'd) engine \<Rightarrow> config \<Rightarrow> ('r, 'o, 'd) session \<Rightarrow> 'o conjecture_result \<Rightarrow> 'o
     \<Rightarrow> (outcome \<times> ('r, 'o, 'd) session) option" where
  "normalize_outer n E C s =
     (if \<not> consecutive_successes s < required_successes C then Some (Returned, s)
      else
        (case n of
           0 \<Rightarrow> None
         | Suc m \<Rightarrow>
             (case outer_body E s of
                Continue s' \<Rightarrow> normalize_outer m E C s'
              | Enter s' attempt target \<Rightarrow> normalize_inner m E C s' attempt target
              | OuterRaise e s' \<Rightarrow> Some (Raised e, s'))))"
| "normalize_inner n E C s attempt target =
     (case n of
        0 \<Rightarrow> None
      | Suc m \<Rightarrow>
          (case inner_body E C s attempt target of
             Break s' \<Rightarrow> normalize_outer m E C s'
           | Again s' \<Rightarrow> normalize_inner m E C s' attempt target
           | InnerRaise e s' \<Rightarrow> Some (Raised e, s')
           | Hang \<Rightarrow> None))"

declare normalize_outer.simps [simp del]
declare normalize_inner.simps [simp del]

text \<open>
  \<open>normalize\<close>: the initial values of the local variables, the loops, and the final write
  of the registry. The result holds the session and the file as they are when
  \<open>normalize\<close> returns or raises.
\<close>

definition initial_session :: "'r \<Rightarrow> 'd registry \<Rightarrow> ('r, 'o, 'd) session" where
  "initial_session r dfas =
     \<lparr>runner = r, seen = Map.empty, dfas_added = 0, found_interesting = False,
      consecutive_successes = 0, failures_to_find_interesting = 0, SHRINKING_DFAS = dfas\<rparr>"

definition normalize ::
  "nat \<Rightarrow> ('r, 'o, 'd) engine \<Rightarrow> config \<Rightarrow> 'r \<Rightarrow> 'd registry \<Rightarrow> learned_dfa_file
     \<Rightarrow> (outcome \<times> ('r, 'o, 'd) session \<times> learned_dfa_file) option" where
  "normalize n E C r dfas f =
     (case normalize_outer n E C (initial_session r dfas) of
        None \<Rightarrow> None
      | Some (Raised e, s) \<Rightarrow> Some (Raised e, s, f)
      | Some (Returned, s) \<Rightarrow>
          if 0 < dfas_added s then
            (case update_learned_dfas (repr_name E) (repr_dfa E) (SHRINKING_DFAS s) f of
               Inl e \<Rightarrow> Some (Raised e, s, f)
             | Inr f' \<Rightarrow> Some (Returned, s, f'))
          else Some (Returned, s, f))"

section \<open>Runs of attempts\<close>

text \<open>
  \<open>failing_attempts k E r\<close>: from the runner state \<open>r\<close>, the next \<open>k\<close> calls of
  \<open>runner.cached_test_function(b"", extend=BUFFER_SIZE)\<close> all return a status below
  \<open>INTERESTING\<close>; \<open>attempts_runner k E r\<close> is the runner state after them.
\<close>

fun attempts_runner :: "nat \<Rightarrow> ('r, 'o, 'd) engine \<Rightarrow> 'r \<Rightarrow> 'r" where
  "attempts_runner 0 E r = r"
| "attempts_runner (Suc k) E r =
     attempts_runner k E (snd (cached_test_function E r [] (BUFFER_SIZE E)))"

fun failing_attempts :: "nat \<Rightarrow> ('r, 'o, 'd) engine \<Rightarrow> 'r \<Rightarrow> bool" where
  "failing_attempts 0 E r = True"
| "failing_attempts (Suc k) E r =
     (status_value (status (fst (cached_test_function E r [] (BUFFER_SIZE E))))
        < status_value INTERESTING
      \<and> failing_attempts k E (snd (cached_test_function E r [] (BUFFER_SIZE E))))"

definition after_failures :: "nat \<Rightarrow> ('r, 'o, 'd) engine \<Rightarrow> ('r, 'o, 'd) session \<Rightarrow> ('r, 'o, 'd) session" where
  "after_failures k E s =
     s\<lparr>runner := attempts_runner k E (runner s),
       failures_to_find_interesting := failures_to_find_interesting s + int k\<rparr>"

text \<open>
  A matching round: the attempt is interesting, its origin has a recorded result, and the
  shrinker reproduces the recorded buffer. \<open>after_round\<close> is the session after such a round,
  \<open>matching_rounds k\<close> says that the next \<open>k\<close> rounds all match, whatever their origins.
\<close>

definition round_attempt :: "('r, 'o, 'd) engine \<Rightarrow> ('r, 'o, 'd) session \<Rightarrow> 'o conjecture_result \<times> 'r" where
  "round_attempt E s = cached_test_function E (runner s) [] (BUFFER_SIZE E)"

definition round_shrunk :: "('r, 'o, 'd) engine \<Rightarrow> ('r, 'o, 'd) session \<Rightarrow> 'o conjecture_result \<times> 'r" where
  "round_shrunk E s =
     (let (attempt, r) = round_attempt E s
      in target_shrink E r attempt (interesting_origin attempt))"

definition matching_round :: "('r, 'o, 'd) engine \<Rightarrow> ('r, 'o, 'd) session \<Rightarrow> bool" where
  "matching_round E s =
     (let attempt = fst (round_attempt E s)
      in \<not> status_value (status attempt) < status_value INTERESTING
         \<and> (case seen s (interesting_origin attempt) of
              None \<Rightarrow> False
            | Some existing \<Rightarrow> buffer (fst (round_shrunk E s)) = buffer existing))"

definition after_round :: "('r, 'o, 'd) engine \<Rightarrow> ('r, 'o, 'd) session \<Rightarrow> ('r, 'o, 'd) session" where
  "after_round E s =
     s\<lparr>runner := snd (round_shrunk E s), found_interesting := True,
       consecutive_successes := consecutive_successes s + 1\<rparr>"

fun after_rounds :: "nat \<Rightarrow> ('r, 'o, 'd) engine \<Rightarrow> ('r, 'o, 'd) session \<Rightarrow> ('r, 'o, 'd) session" where
  "after_rounds 0 E s = s"
| "after_rounds (Suc k) E s = after_rounds k E (after_round E s)"

fun matching_rounds :: "nat \<Rightarrow> ('r, 'o, 'd) engine \<Rightarrow> ('r, 'o, 'd) session \<Rightarrow> bool" where
  "matching_rounds 0 E s = True"
| "matching_rounds (Suc k) E s = (matching_round E s \<and> matching_rounds k E (after_round E s))"

text \<open>
  Engines for concrete runs. The runner state counts the attempts made, and shrinking
  changes nothing. In \<open>late_engine k\<close> the first \<open>k\<close> attempts are valid but not interesting
  and all later ones are interesting with the empty buffer; in \<open>two_origins\<close> every attempt
  is interesting, with origin and buffer alternating between two values; in
  \<open>flaky_engine\<close> every attempt is interesting with the same origin, the buffer alternates
  between \<open>b"\x00"\<close> and \<open>b"\x01"\<close>, every other buffer run is interesting as it is, and the
  learner comes back at once.
\<close>

definition late_engine :: "nat \<Rightarrow> (nat, nat, unit) engine" where
  "late_engine k =
     \<lparr>cached_test_function = (\<lambda>r buf extend.
          (\<lparr>status = (if r < k then VALID else INTERESTING), interesting_origin = 0,
            buffer = [], has_discards = False\<rparr>, r + 1)),
      BUFFER_SIZE = 8192,
      shrink = (\<lambda>r d p. (d, r)),
      interesting_examples = (\<lambda>r t. \<lparr>status = INTERESTING, interesting_origin = t,
                                     buffer = [], has_discards = False\<rparr>),
      learn = (\<lambda>r oracle u v. None),
      digest = (\<lambda>d. []),
      repr_name = (\<lambda>k. k),
      repr_dfa = (\<lambda>d. [])\<rparr>"

definition two_origins :: "(nat, nat, unit) engine" where
  "two_origins =
     \<lparr>cached_test_function = (\<lambda>r buf extend.
          (\<lparr>status = INTERESTING, interesting_origin = r mod 2,
            buffer = [r mod 2], has_discards = False\<rparr>, r + 1)),
      BUFFER_SIZE = 8192,
      shrink = (\<lambda>r d p. (d, r)),
      interesting_examples = (\<lambda>r t. \<lparr>status = INTERESTING, interesting_origin = t,
                                     buffer = [t], has_discards = False\<rparr>),
      learn = (\<lambda>r oracle u v. None),
      digest = (\<lambda>d. []),
      repr_name = (\<lambda>k. k),
      repr_dfa = (\<lambda>d. [])\<rparr>"

definition flaky_engine :: "(nat, nat, unit) engine" where
  "flaky_engine =
     \<lparr>cached_test_function = (\<lambda>r buf extend.
          if extend = 0
          then (\<lparr>status = INTERESTING, interesting_origin = 0, buffer = buf,
                 has_discards = False\<rparr>, r)
          else (\<lparr>status = INTERESTING, interesting_origin = 0, buffer = [r mod 2],
                 has_discards = False\<rparr>, r + 1)),
      BUFFER_SIZE = 8192,
      shrink = (\<lambda>r d p. (d, r)),
      interesting_examples = (\<lambda>r t. \<lparr>status = INTERESTING, interesting_origin = t,
                                     buffer = [0], has_discards = False\<rparr>),
      learn = (\<lambda>r oracle u v. Some ((), r)),
      digest = (\<lambda>d. []),
      repr_name = (\<lambda>k. k),
      repr_dfa = (\<lambda>d. [])\<rparr>"

text \<open>Arguments, results and a file for concrete runs.\<close>

definition demo_config :: "int \<Rightarrow> bool \<Rightarrow> int \<Rightarrow> config" where
  "demo_config successes allowed cap =
     \<lparr>base_name = [], required_successes = successes, allowed_to_update = allowed,
      max_dfas = cap\<rparr>"

definition interesting_result :: "nat \<Rightarrow> buffer \<Rightarrow> nat conjecture_result" where
  "interesting_result origin b =
     \<lparr>status = INTERESTING, interesting_origin = origin, buffer = b, has_discards = False\<rparr>"

definition empty_file :: learned_dfa_file where
  "empty_file = \<lparr>contents = [], writes = 0\<rparr>"

section \<open>The automaton model\<close>

text \<open>
  Modelled from the spec: the module of automata (\<open>ConcreteDFA\<close>, \<open>DEAD\<close>) is imported by
  the tests and is not among the sources. A state is an index into the state table;
  \<open>DEAD\<close> is the sentinel, never a real index.
\<close>

type_synonym state = "nat option"

abbreviation DEAD :: state where
  "DEAD \<equiv> None"

text \<open>
  Modelled from the spec: the transition encoding of one state, which the absent
  \<open>ConcreteDFA\<close> holds per state: a sparse ordered list of (byte range, target) entries,
  or a dense mapping from byte to target, here in the order of its entries. The lazy
  conversion from the sparse to the dense form changes no lookup and is not modelled.
\<close>

datatype table = Sparse "(nat \<times> nat \<times> nat) list" | Dense "(nat \<times> nat) list"

fun lookup_sparse :: "(nat \<times> nat \<times> nat) list \<Rightarrow> nat \<Rightarrow> nat option" where
  "lookup_sparse [] b = None"
| "lookup_sparse ((lo, hi, t) # rs) b = (if lo \<le> b \<and> b \<le> hi then Some t else lookup_sparse rs b)"

fun lookup :: "table \<Rightarrow> nat \<Rightarrow> nat option" where
  "lookup (Sparse rs) b = lookup_sparse rs b"
| "lookup (Dense m) b = map_of m b"

text \<open>
  Modelled from the spec: the absent \<open>ConcreteDFA\<close>: the state table, the start state and
  the set of accepting states, fixed at construction.
\<close>

record dfa =
  tables :: "table list"
  start :: nat
  accepting :: "nat set"

text \<open>The 256 symbols of the alphabet, in ascending order.\<close>

definition byte_values :: "nat list" where
  "byte_values = [0..<256]"

text \<open>
  Modelled from the spec: \<open>transition(state, byte)\<close> of the absent automaton module:
  deterministic lookup, never fails, \<open>DEAD\<close> from \<open>DEAD\<close>. A symbol that is not a byte, a
  state without a row in the table and a target outside the table lead to \<open>DEAD\<close>.
\<close>

definition transition :: "dfa \<Rightarrow> state \<Rightarrow> nat \<Rightarrow> state" where
  "transition A s b =
     (case s of
        None \<Rightarrow> DEAD
      | Some q \<Rightarrow>
          if q < length (tables A) \<and> b < 256 then
            (case lookup (tables A ! q) b of
               None \<Rightarrow> DEAD
             | Some t \<Rightarrow> if t < length (tables A) then Some t else DEAD)
          else DEAD)"

text \<open>
  Modelled from the spec: membership in the accepting set of the absent automaton;
  \<open>DEAD\<close> never accepts, and only states of the table are states.
\<close>

definition is_accepting :: "dfa \<Rightarrow> state \<Rightarrow> bool" where
  "is_accepting A s =
     (case s of None \<Rightarrow> False | Some q \<Rightarrow> q < length (tables A) \<and> q \<in> accepting A)"

text \<open>
  Modelled from the spec: \<open>matches(string)\<close> of the absent automaton module: fold
  \<open>transition\<close> over the bytes from the start state and accept iff the final state is
  accepting. \<open>accepts_from\<close> is the same from any state.
\<close>

definition run :: "dfa \<Rightarrow> state \<Rightarrow> buffer \<Rightarrow> state" where
  "run A s w = foldl (transition A) s w"

definition accepts_from :: "dfa \<Rightarrow> state \<Rightarrow> buffer \<Rightarrow> bool" where
  "accepts_from A s w = is_accepting A (run A s w)"

definition matches :: "dfa \<Rightarrow> buffer \<Rightarrow> bool" where
  "matches A w = is_accepting A (run A (Some (start A)) w)"

text \<open>
  Modelled from the spec: \<open>is_dead(state)\<close> of the absent automaton module: true iff no
  accepting state is reachable, computed by backward reachability from the accepting
  set over the reversed transition relation. \<open>backward\<close> adds the predecessors that are
  not yet in the set until there are none left.
\<close>

definition predecessors :: "dfa \<Rightarrow> nat list \<Rightarrow> nat list" where
  "predecessors A R =
     filter (\<lambda>q. \<exists>b \<in> set byte_values.
                (case transition A (Some q) b of None \<Rightarrow> False | Some t \<Rightarrow> t \<in> set R))
       [0..<length (tables A)]"

definition fresh_predecessors :: "dfa \<Rightarrow> nat list \<Rightarrow> nat list" where
  "fresh_predecessors A R = filter (\<lambda>q. q \<notin> set R) (predecessors A R)"

function backward :: "dfa \<Rightarrow> nat list \<Rightarrow> nat list" where
  "backward A R =
     (if fresh_predecessors A R = [] then R else backward A (R @ fresh_predecessors A R))"
  by pat_completeness auto
termination
proof (relation "measure (\<lambda>(A, R). card ({0..<length (tables A)} - set R))")
  show "wf (measure (\<lambda>(A, R). card ({0..<length (tables A)} - set R)))"
    by simp
next
  fix A :: dfa and R :: "nat list"
  assume "fresh_predecessors A R \<noteq> []"
  then obtain q where q: "q \<in> set (fresh_predecessors A R)"
    by (cases "fresh_predecessors A R") auto
  then have "q \<in> set (predecessors A R)" and "q \<notin> set R"
    by (simp_all add: fresh_predecessors_def)
  then have "q < length (tables A)"
    unfolding predecessors_def by simp
  let ?U = "{0..<length (tables A)}"
  from \<open>q < length (tables A)\<close> \<open>q \<notin> set R\<close> have "q \<in> ?U - set R" by simp
  moreover from q have "q \<notin> ?U - (set R \<union> set (fresh_predecessors A R))" by simp
  moreover have "?U - (set R \<union> set (fresh_predecessors A R)) \<subseteq> ?U - set R" by blast
  ultimately have "?U - (set R \<union> set (fresh_predecessors A R)) \<subset> ?U - set R" by blast
  then have "card (?U - (set R \<union> set (fresh_predecessors A R))) < card (?U - set R)"
    by (intro psubset_card_mono) simp_all
  then show "((A, R @ fresh_predecessors A R), (A, R))
      \<in> measure (\<lambda>(A, R). card ({0..<length (tables A)} - set R))"
    by simp
qed

declare backward.simps [simp del]

definition live :: "dfa \<Rightarrow> nat list" where
  "live A = backward A (filter (\<lambda>q. q \<in> accepting A) [0..<length (tables A)])"

definition is_dead :: "dfa \<Rightarrow> state \<Rightarrow> bool" where
  "is_dead A s = (case s of None \<Rightarrow> True | Some q \<Rightarrow> q \<notin> set (live A))"

text \<open>
  Modelled from the spec: \<open>max_length(state)\<close> of the absent automaton module: the length
  of the longest string accepted from the state, a non-negative integer or infinity.
  \<open>visiting\<close> holds the states still being resolved; meeting one of them again gives
  infinity. Otherwise the result is the maximum, over the transitions into states that
  are not dead, of one plus the result for the target, and 0 when there is no such
  transition.
\<close>

function max_length_from :: "dfa \<Rightarrow> nat list \<Rightarrow> nat \<Rightarrow> enat" where
  "max_length_from A visiting q =
     (if q \<in> set visiting then \<infinity>
      else if length (tables A) \<le> q then 0
      else fold max
             (map (\<lambda>b. case transition A (Some q) b of
                          None \<Rightarrow> 0
                        | Some t \<Rightarrow> if is_dead A (Some t) then 0
                                    else 1 + max_length_from A (q # visiting) t)
                byte_values)
             0)"
  by pat_completeness auto
termination
proof (relation "measure (\<lambda>(A, visiting, q). card ({0..<length (tables A)} - set visiting))")
  show "wf (measure (\<lambda>(A, visiting, q). card ({0..<length (tables A)} - set visiting)))"
    by simp
next
  fix A :: dfa and visiting :: "nat list" and q b t :: nat
  assume "q \<notin> set visiting" and "\<not> length (tables A) \<le> q"
  let ?U = "{0..<length (tables A)}"
  from \<open>q \<notin> set visiting\<close> \<open>\<not> length (tables A) \<le> q\<close> have "q \<in> ?U - set visiting" by simp
  moreover have "q \<notin> ?U - set (q # visiting)" by simp
  moreover have "?U - set (q # visiting) \<subseteq> ?U - set visiting" by auto
  ultimately have "?U - set (q # visiting) \<subset> ?U - set visiting" by blast
  then have "card (?U - set (q # visiting)) < card (?U - set visiting)"
    by (intro psubset_card_mono) simp_all
  then show "((A, q # visiting, t), (A, visiting, q))
      \<in> measure (\<lambda>(A, visiting, q). card ({0..<length (tables A)} - set visiting))"
    by simp
qed

declare max_length_from.simps [simp del]

definition max_length :: "dfa \<Rightarrow> state \<Rightarrow> enat" where
  "max_length A s = (case s of None \<Rightarrow> 0 | Some q \<Rightarrow> max_length_from A [] q)"

text \<open>The term of one transition in the maximum above.\<close>

definition step_length :: "dfa \<Rightarrow> nat list \<Rightarrow> nat \<Rightarrow> nat \<Rightarrow> enat" where
  "step_length A V q b =
     (case transition A (Some q) b of
        None \<Rightarrow> 0
      | Some t \<Rightarrow> if is_dead A (Some t) then 0 else 1 + max_length_from A (q # V) t)"

text \<open>
  Modelled from the spec: \<open>count_strings(state, length)\<close> of the absent automaton module:
  at length 0 it is 1 if the state accepts and 0 otherwise; at a greater length it is the
  sum over the 256 bytes of the count from the next state at one less, and 0 from \<open>DEAD\<close>.
\<close>

fun count_strings :: "dfa \<Rightarrow> state \<Rightarrow> nat \<Rightarrow> nat" where
  "count_strings A s 0 = (if is_accepting A s then 1 else 0)"
| "count_strings A s (Suc n) =
     (case s of
        None \<Rightarrow> 0
      | Some q \<Rightarrow> sum_list (map (\<lambda>b. count_strings A (transition A s b) n) byte_values))"

text \<open>
  Modelled from the spec: the digit selection of \<open>all_matching_strings()\<close> in the absent
  automaton module. At each position the bytes are walked in ascending order; a byte
  whose number of completions exceeds the rank is taken and the walk descends with that
  rank, and a byte that is skipped takes its completions off the rank. \<open>kth_string\<close> is
  the string of rank \<open>k\<close> among those of length \<open>n\<close> accepted from \<open>s\<close>.
\<close>

fun select_byte :: "dfa \<Rightarrow> state \<Rightarrow> nat \<Rightarrow> nat \<Rightarrow> nat list \<Rightarrow> (nat \<times> nat) option" where
  "select_byte A s n k [] = None"
| "select_byte A s n k (b # bs) =
     (let completions = count_strings A (transition A s b) n
      in if k < completions then Some (b, k)
         else select_byte A s n (k - completions) bs)"

fun kth_string :: "dfa \<Rightarrow> state \<Rightarrow> nat \<Rightarrow> nat \<Rightarrow> buffer" where
  "kth_string A s 0 k = []"
| "kth_string A s (Suc n) k =
     (case select_byte A s n k byte_values of
        None \<Rightarrow> []
      | Some (b, k') \<Rightarrow> b # kth_string A (transition A s b) n k')"

definition strings_of_length :: "dfa \<Rightarrow> nat \<Rightarrow> buffer list" where
  "strings_of_length A L =
     map (kth_string A (Some (start A)) L) [0..<count_strings A (Some (start A)) L]"

text \<open>
  Modelled from the spec: \<open>all_matching_strings()\<close> of the absent automaton module, a lazy
  sequence: for increasing lengths from 0 it produces the strings of that length by
  rank. \<open>all_matching_strings A n\<close> is what the sequence has produced once the lengths
  below \<open>n\<close> are done; no length beyond \<open>max_length\<close> of the start state is tried.
\<close>

definition all_matching_strings :: "dfa \<Rightarrow> nat \<Rightarrow> buffer list" where
  "all_matching_strings A n =
     concat (map (strings_of_length A)
               (filter (\<lambda>L. enat L \<le> max_length A (Some (start A))) [0..<n]))"

text \<open>
  The strings of length \<open>n\<close> accepted from a state, listed byte by byte in ascending
  order, and the states from which some string is accepted.
\<close>

fun lang_list :: "dfa \<Rightarrow> state \<Rightarrow> nat \<Rightarrow> buffer list" where
  "lang_list A s 0 = (if is_accepting A s then [[]] else [])"
| "lang_list A s (Suc n) =
     concat (map (\<lambda>b. map ((#) b) (lang_list A (transition A s b) n)) byte_values)"

definition alive :: "dfa \<Rightarrow> nat \<Rightarrow> bool" where
  "alive A q = (\<exists>w. accepts_from A (Some q) w)"

text \<open>
  The automaton of the example scenario, \<open>ConcreteDFA([{0: 1, 1: 2}, {}, {1: 3}, {}],
  {1, 3})\<close>, and an automaton whose start state is dead.
\<close>

definition example_dfa :: dfa where
  "example_dfa =
     \<lparr>tables = [Dense [(0, 1), (1, 2)], Dense [], Dense [(1, 3)], Dense []],
      start = 0, accepting = {1, 3}\<rparr>"

definition dead_start_dfa :: dfa where
  "dead_start_dfa = \<lparr>tables = [Dense [], Dense []], start = 0, accepting = {1}\<rparr>"






text \<open>
  Modelled from the spec: the first half of \<open>canonicalise()\<close> of the absent automaton
  module, partition refinement. The partition is held as the list of the pairs of states
  that share a block; \<open>DEAD\<close> is one of the states, so that a missing transition is told
  from a present one. It starts from the accepting/non-accepting partition and is refined
  by indistinguishability under one-step transitions until no refinement occurs. Two
  states are in the same class when their pair has survived.
\<close>

definition universe :: "dfa \<Rightarrow> state list" where
  "universe A = None # map Some [0..<length (tables A)]"

definition initial_partition :: "dfa \<Rightarrow> (state \<times> state) list" where
  "initial_partition A =
     filter (\<lambda>(p, q). is_accepting A p = is_accepting A q)
       (List.product (universe A) (universe A))"

definition refine_step :: "dfa \<Rightarrow> (state \<times> state) list \<Rightarrow> (state \<times> state) list" where
  "refine_step A R =
     filter (\<lambda>(p, q). \<forall>b \<in> set byte_values. (transition A p b, transition A q b) \<in> set R) R"

function refine :: "dfa \<Rightarrow> (state \<times> state) list \<Rightarrow> (state \<times> state) list" where
  "refine A R = (if refine_step A R = R then R else refine A (refine_step A R))"
  by pat_completeness auto
termination
proof (relation "measure (\<lambda>(A, R). length R)")
  show "wf (measure (\<lambda>(A, R). length R))" by simp
next
  fix A :: dfa and R :: "(state \<times> state) list"
  assume "refine_step A R \<noteq> R"
  then obtain x where "x \<in> set R" and "x \<notin> set (refine_step A R)"
    unfolding refine_step_def by (auto simp: filter_id_conv)
  then have "length (refine_step A R) < length R"
    unfolding refine_step_def by (intro length_filter_less [of x]) simp_all
  then show "((A, refine_step A R), (A, R)) \<in> measure (\<lambda>(A, R). length R)" by simp
qed

declare refine.simps [simp del]

definition same_language :: "dfa \<Rightarrow> (state \<times> state) list" where
  "same_language A = refine A (initial_partition A)"

definition same_class :: "dfa \<Rightarrow> nat \<Rightarrow> nat \<Rightarrow> bool" where
  "same_class A p q = ((Some p, Some q) \<in> set (same_language A))"

text \<open>
  Modelled from the spec: the second half of \<open>canonicalise()\<close>, the renumbering by a
  canonical traversal: the classes are numbered as they are first discovered from the
  start state, breadth first and byte by byte in ascending order. \<open>vis\<close> holds one state
  of each class discovered so far, in the order of discovery; \<open>explore\<close> expands its
  entries from left to right, and \<open>discover\<close> appends the targets of one state that are
  not dead and belong to no class met before. No class is discovered twice, so as many
  expansions as the automaton has states are enough.
\<close>

definition live_target :: "dfa \<Rightarrow> nat \<Rightarrow> nat \<Rightarrow> nat option" where
  "live_target A q b =
     (case transition A (Some q) b of
        None \<Rightarrow> None
      | Some t \<Rightarrow> if is_dead A (Some t) then None else Some t)"

definition discover_step :: "dfa \<Rightarrow> nat \<Rightarrow> nat \<Rightarrow> nat list \<Rightarrow> nat list" where
  "discover_step A q b vis =
     (case live_target A q b of
        None \<Rightarrow> vis
      | Some t \<Rightarrow> if \<exists>r \<in> set vis. same_class A r t then vis else vis @ [t])"

definition discover :: "dfa \<Rightarrow> nat list \<Rightarrow> nat \<Rightarrow> nat list" where
  "discover A vis q = fold (discover_step A q) byte_values vis"

fun explore :: "dfa \<Rightarrow> nat \<Rightarrow> nat list \<Rightarrow> nat \<Rightarrow> nat list" where
  "explore A 0 vis i = vis"
| "explore A (Suc fuel) vis i =
     (if i < length vis then explore A fuel (discover A vis (vis ! i)) (i + 1) else vis)"

definition traversal :: "dfa \<Rightarrow> nat list" where
  "traversal A =
     (if is_dead A (Some (start A)) then []
      else explore A (length (tables A)) [start A] 0)"

text \<open>
  Modelled from the spec: \<open>canonicalise()\<close> of the absent automaton module: the minimal
  automaton of the same language with its states renumbered. State \<open>i\<close> of the result is
  the \<open>i\<close>-th class of the traversal; its row lists, in byte order, the transitions of
  that class into classes that are not dead, each target being the number of its class;
  it accepts iff the class does; the start state is 0. An automaton with a dead start
  state accepts nothing, and its canonical form is the single state without transitions.
\<close>

definition class_index :: "dfa \<Rightarrow> nat list \<Rightarrow> nat \<Rightarrow> nat" where
  "class_index A order t = length (takeWhile (\<lambda>r. \<not> same_class A r t) order)"

definition row :: "dfa \<Rightarrow> nat list \<Rightarrow> nat \<Rightarrow> (nat \<times> nat) list" where
  "row A order q =
     concat (map (\<lambda>b. case live_target A q b of
                         None \<Rightarrow> []
                       | Some t \<Rightarrow> [(b, class_index A order t)]) byte_values)"

definition canonicalise :: "dfa \<Rightarrow> dfa" where
  "canonicalise A =
     (let order = traversal A in
      if order = [] then \<lparr>tables = [Dense []], start = 0, accepting = {}\<rparr>
      else \<lparr>tables = map (\<lambda>q. Dense (row A order q)) order,
            start = 0,
            accepting = set (filter (\<lambda>i. order ! i \<in> accepting A) [0..<length order])\<rparr>)"

text \<open>
  Modelled from the spec: \<open>equivalent(other)\<close> of the absent automaton module, by
  emptiness of the symmetric difference: a search of the product automaton from the joint
  start state, whose accepting states are the pairs of which exactly one component
  accepts. \<open>forward\<close> adds the successors that are not yet in the list until there are
  none left.
\<close>

definition pair_successors :: "dfa \<Rightarrow> dfa \<Rightarrow> (state \<times> state) list \<Rightarrow> (state \<times> state) list" where
  "pair_successors A B P =
     concat (map (\<lambda>(p, q). map (\<lambda>b. (transition A p b, transition B q b)) byte_values) P)"

definition fresh_pairs :: "dfa \<Rightarrow> dfa \<Rightarrow> (state \<times> state) list \<Rightarrow> (state \<times> state) list" where
  "fresh_pairs A B P = remdups (filter (\<lambda>x. x \<notin> set P) (pair_successors A B P))"

function forward :: "dfa \<Rightarrow> dfa \<Rightarrow> (state \<times> state) list \<Rightarrow> (state \<times> state) list" where
  "forward A B P =
     (if fresh_pairs A B P = [] then P else forward A B (P @ fresh_pairs A B P))"
  by pat_completeness auto
termination
proof (relation "measure (\<lambda>(A, B, P). card (set (universe A) \<times> set (universe B) - set P))")
  show "wf (measure (\<lambda>(A, B, P). card (set (universe A) \<times> set (universe B) - set P)))"
    by simp
next
  fix A B :: dfa and P :: "(state \<times> state) list"
  have univ: "transition C s b \<in> set (universe C)" for C :: dfa and s b
    by (cases s) (auto simp: transition_def universe_def split: option.splits)
  assume "fresh_pairs A B P \<noteq> []"
  then obtain x where x: "x \<in> set (fresh_pairs A B P)"
    by (cases "fresh_pairs A B P") auto
  then have "x \<in> set (pair_successors A B P)" and new: "x \<notin> set P"
    by (simp_all add: fresh_pairs_def)
  then obtain p q b where "x = (transition A p b, transition B q b)"
    unfolding pair_successors_def by auto
  then have "x \<in> set (universe A) \<times> set (universe B)"
    by (simp add: univ)
  let ?U = "set (universe A) \<times> set (universe B)"
  from \<open>x \<in> ?U\<close> new have "x \<in> ?U - set P" by simp
  moreover from x have "x \<notin> ?U - (set P \<union> set (fresh_pairs A B P))" by simp
  moreover have "?U - (set P \<union> set (fresh_pairs A B P)) \<subseteq> ?U - set P" by blast
  ultimately have "?U - (set P \<union> set (fresh_pairs A B P)) \<subset> ?U - set P" by blast
  then have "card (?U - (set P \<union> set (fresh_pairs A B P))) < card (?U - set P)"
    by (intro psubset_card_mono) simp_all
  then show "((A, B, P @ fresh_pairs A B P), (A, B, P))
      \<in> measure (\<lambda>(A, B, P). card (set (universe A) \<times> set (universe B) - set P))"
    by simp
qed

declare forward.simps [simp del]

definition joint_reachable :: "dfa \<Rightarrow> dfa \<Rightarrow> (state \<times> state) list" where
  "joint_reachable A B = forward A B [(Some (start A), Some (start B))]"

definition equivalent :: "dfa \<Rightarrow> dfa \<Rightarrow> bool" where
  "equivalent A B =
     (\<not> (\<exists>(p, q) \<in> set (joint_reachable A B). is_accepting A p \<noteq> is_accepting B q))"

text \<open>
  Modelled from the spec: the textual encoding of an automaton, which the spec asks to be
  deterministic and independent of the sparse or dense representation: the states in
  order, each with its transitions in byte order as \<open>(byte, target)\<close>, then the accepting
  states in ascending order, then the start state, all numbers in decimal.
\<close>

fun decimal :: "nat \<Rightarrow> pystr" where
  "decimal n = (if n < 10 then [48 + n] else decimal (n div 10) @ [48 + n mod 10])"

declare decimal.simps [simp del]

definition transitions_of :: "dfa \<Rightarrow> nat \<Rightarrow> (nat \<times> nat) list" where
  "transitions_of A q =
     concat (map (\<lambda>b. case transition A (Some q) b of
                         None \<Rightarrow> []
                       | Some t \<Rightarrow> [(b, t)]) byte_values)"

definition encode_state :: "dfa \<Rightarrow> nat \<Rightarrow> pystr" where
  "encode_state A q =
     str ''['' @ join (str '', '')
                  (map (\<lambda>(b, t). str ''('' @ decimal b @ str '', '' @ decimal t @ str '')'')
                     (transitions_of A q))
     @ str '']''"

definition encode :: "dfa \<Rightarrow> pystr" where
  "encode A =
     str ''ConcreteDFA([''
     @ join (str '', '') (map (encode_state A) [0..<length (tables A)])
     @ str ''], {''
     @ join (str '', '')
         (map decimal (filter (\<lambda>q. q \<in> accepting A) [0..<length (tables A)]))
     @ str ''}, start='' @ decimal (start A) @ str '')''"

text \<open>
  The notions that the proofs about the canonical form use. Two states are Nerode
  equivalent when the same strings are accepted from both. A list of states is \<open>good\<close>
  when its states are alive and no two of them are in the same class; a state is
  \<open>covered\<close> by a list when each of its targets that is not dead has its class in the
  list. \<open>related A j t\<close> says that \<open>t\<close> belongs to the \<open>j\<close>-th class of the traversal.
\<close>

definition nerode :: "dfa \<Rightarrow> state \<Rightarrow> state \<Rightarrow> bool" where
  "nerode A p q = (\<forall>w. accepts_from A p w = accepts_from A q w)"

definition good :: "dfa \<Rightarrow> nat list \<Rightarrow> bool" where
  "good A vis =
     ((\<forall>r \<in> set vis. alive A r)
      \<and> (\<forall>i j. i < length vis \<and> j < length vis \<and> same_class A (vis ! i) (vis ! j) \<longrightarrow> i = j))"

definition covered :: "dfa \<Rightarrow> nat list \<Rightarrow> nat \<Rightarrow> bool" where
  "covered A vis q =
     (\<forall>b t. live_target A q b = Some t \<longrightarrow> (\<exists>r \<in> set vis. same_class A r t))"

definition related :: "dfa \<Rightarrow> nat \<Rightarrow> nat \<Rightarrow> bool" where
  "related A j t = (j < length (traversal A) \<and> same_class A (traversal A ! j) t)"

text \<open>A text without line boundaries.\<close>

definition nobreak :: "pystr \<Rightarrow> bool" where
  "nobreak l = (\<forall>c \<in> set l. \<not> linebreak c)"

text \<open>A file, a registry and a \<open>%r\<close> for names, for a concrete run.\<close>

definition demo_lines :: "pystr list" where
  "demo_lines = [str ''x = 1'', marker, str ''old'']"

definition demo_file :: learned_dfa_file where
  "demo_file = \<lparr>contents = join [10] demo_lines @ [10], writes = 0\<rparr>"

definition demo_registry :: "unit registry" where
  "demo_registry = [(str ''b'', ()), (str ''a'', ())]"

definition demo_repr :: "pystr \<Rightarrow> pystr" where
  "demo_repr k = filter (\<lambda>c. \<not> linebreak c) k"

section \<open>Stripping\<close>

text \<open>
  C1. The claim: for all diverging buffers \<open>u\<close> before \<open>v\<close> in the shrinker's order, with \<open>v\<close>
  not starting with \<open>u\<close>, the stripping raises nothing and splits both buffers around the
  common prefix and suffix. The code does not: when \<open>u\<close> is a proper suffix of \<open>v\<close> the
  second loop reads \<open>u[-(len(u) + 1)]\<close> and raises \<open>IndexError\<close>, and when the common prefix
  and the common suffix overlap inside \<open>u\<close> the assertion \<open>u == prefix + u_core + suffix\<close>
  fails.
\<close>

theorem strip_common_fails:
  "sort_key_bytes [1] < sort_key_bytes [0, 1] \<and> \<not> startswith [0, 1] [1]
     \<and> strip_common [1] [0, 1] = Inl IndexError
   \<and> sort_key_bytes [0, 1, 0] < sort_key_bytes [0, 1, 1, 0] \<and> \<not> startswith [0, 1, 1, 0] [0, 1, 0]
     \<and> strip_common [0, 1, 0] [0, 1, 1, 0] = Inl AssertionError"
  by (simp add: sort_key_bytes_def startswith_def endswith_def slice_def strip_common_def
      prefix_loop.simps suffix_loop.simps)

section \<open>The loops of the driver\<close>

text \<open>What one pass through a loop body changes.\<close>

lemma outer_body_frame:
  "outer_body E s = Continue s' \<or> outer_body E s = Enter s' a t \<or> outer_body E s = OuterRaise e s'
   \<Longrightarrow> dfas_added s' = dfas_added s \<and> SHRINKING_DFAS s' = SHRINKING_DFAS s
       \<and> consecutive_successes s' = consecutive_successes s \<and> seen s' = seen s"
  by (auto simp: outer_body_def Let_def split: prod.splits if_splits)

lemma learn_new_dfa_again:
  "learn_new_dfa E C s t ad u v = Again s'
   \<Longrightarrow> dfas_added s' = dfas_added s + 1
       \<and> length (SHRINKING_DFAS s') = length (SHRINKING_DFAS s) + 1
       \<and> consecutive_successes s' = consecutive_successes s"
  by (auto simp: learn_new_dfa_def Let_def split: prod.splits if_splits sum.splits option.splits)

lemma learn_new_dfa_raise:
  "learn_new_dfa E C s t ad u v = InnerRaise e s'
   \<Longrightarrow> dfas_added s' = dfas_added s + 1 \<and> SHRINKING_DFAS s' = SHRINKING_DFAS s
       \<and> consecutive_successes s' = consecutive_successes s"
  by (auto simp: learn_new_dfa_def Let_def split: prod.splits if_splits sum.splits option.splits)

lemma learn_new_dfa_not_break: "learn_new_dfa E C s t ad u v \<noteq> Break s'"
  by (auto simp: learn_new_dfa_def Let_def split: prod.splits if_splits sum.splits option.splits)

lemma inner_body_break:
  "inner_body E C s a t = Break s'
   \<Longrightarrow> dfas_added s' = dfas_added s \<and> SHRINKING_DFAS s' = SHRINKING_DFAS s
       \<and> (consecutive_successes s' = consecutive_successes s
          \<or> consecutive_successes s' = consecutive_successes s + 1)"
  by (auto simp: inner_body_def Let_def learn_new_dfa_not_break
      split: prod.splits if_splits option.splits)

lemma inner_body_again:
  "inner_body E C s a t = Again s'
   \<Longrightarrow> allowed_to_update C \<and> dfas_added s < max_dfas C \<and> dfas_added s' = dfas_added s + 1
       \<and> length (SHRINKING_DFAS s') = length (SHRINKING_DFAS s) + 1
       \<and> consecutive_successes s' = 0"
  by (auto simp: inner_body_def Let_def dest!: learn_new_dfa_again
      split: prod.splits if_splits option.splits)

lemma inner_body_raise:
  "inner_body E C s a t = InnerRaise e s'
   \<Longrightarrow> SHRINKING_DFAS s' = SHRINKING_DFAS s \<and> consecutive_successes s' = 0
       \<and> (dfas_added s' = dfas_added s
          \<or> allowed_to_update C \<and> dfas_added s < max_dfas C \<and> dfas_added s' = dfas_added s + 1)"
  by (auto simp: inner_body_def Let_def dest!: learn_new_dfa_raise
      split: prod.splits if_splits option.splits)



text \<open>
  An induction rule for the two loops: a relation between the session at a loop head and
  the final outcome holds when it holds at each exit and is carried backwards over each
  pass.
\<close>

lemma normalize_loops_rule:
  assumes ret: "\<And>s. \<not> consecutive_successes s < required_successes C \<Longrightarrow> Q s Returned s"
    and oc: "\<And>s s1 out s'. outer_body E s = Continue s1 \<Longrightarrow> Q s1 out s' \<Longrightarrow> Q s out s'"
    and oe: "\<And>s s1 a t out s'. outer_body E s = Enter s1 a t \<Longrightarrow> Q s1 out s' \<Longrightarrow> Q s out s'"
    and orr: "\<And>s s1 e. outer_body E s = OuterRaise e s1 \<Longrightarrow> Q s (Raised e) s1"
    and ib: "\<And>s s1 a t out s'. inner_body E C s a t = Break s1 \<Longrightarrow> Q s1 out s' \<Longrightarrow> Q s out s'"
    and ia: "\<And>s s1 a t out s'. inner_body E C s a t = Again s1 \<Longrightarrow> Q s1 out s' \<Longrightarrow> Q s out s'"
    and ir: "\<And>s s1 a t e. inner_body E C s a t = InnerRaise e s1 \<Longrightarrow> Q s (Raised e) s1"
  shows "(\<forall>s out s'. normalize_outer n E C s = Some (out, s') \<longrightarrow> Q s out s')
       \<and> (\<forall>s a t out s'. normalize_inner n E C s a t = Some (out, s') \<longrightarrow> Q s out s')"
proof (induction n)
  case 0
  show ?case
    using ret
    by (auto simp: normalize_outer.simps [of 0] normalize_inner.simps [of 0] split: if_splits)
next
  case (Suc n)
  have outer: "Q s out s'" if run: "normalize_outer (Suc n) E C s = Some (out, s')" for s out s'
  proof (cases "consecutive_successes s < required_successes C")
    case False
    with run ret show ?thesis by (simp add: normalize_outer.simps [of "Suc n"])
  next
    case True
    show ?thesis
    proof (cases "outer_body E s")
      case (Continue s1)
      with run True have "normalize_outer n E C s1 = Some (out, s')"
        by (simp add: normalize_outer.simps [of "Suc n"])
      with Suc.IH have "Q s1 out s'" by blast
      with Continue show ?thesis by (rule oc)
    next
      case (Enter s1 a t)
      with run True have "normalize_inner n E C s1 a t = Some (out, s')"
        by (simp add: normalize_outer.simps [of "Suc n"])
      with Suc.IH have "Q s1 out s'" by blast
      with Enter show ?thesis by (rule oe)
    next
      case (OuterRaise e s1)
      with run True have "out = Raised e" "s' = s1"
        by (simp_all add: normalize_outer.simps [of "Suc n"])
      with orr [OF OuterRaise] show ?thesis by simp
    qed
  qed
  have inner: "Q s out s'" if run: "normalize_inner (Suc n) E C s a t = Some (out, s')" for s a t out s'
  proof (cases "inner_body E C s a t")
    case (Break s1)
    with run have "normalize_outer n E C s1 = Some (out, s')"
      by (simp add: normalize_inner.simps [of "Suc n"])
    with Suc.IH have "Q s1 out s'" by blast
    with Break show ?thesis by (rule ib)
  next
    case (Again s1)
    with run have "normalize_inner n E C s1 a t = Some (out, s')"
      by (simp add: normalize_inner.simps [of "Suc n"])
    with Suc.IH have "Q s1 out s'" by blast
    with Again show ?thesis by (rule ia)
  next
    case (InnerRaise e s1)
    with run have "out = Raised e" "s' = s1"
      by (simp_all add: normalize_inner.simps [of "Suc n"])
    with ir [OF InnerRaise] show ?thesis by simp
  next
    case Hang
    with run show ?thesis by (simp add: normalize_inner.simps [of "Suc n"])
  qed
  from outer inner show ?case by blast
qed


lemma outer_not_allowed:
  assumes "normalize_outer n E C s = Some (out, s')" and "\<not> allowed_to_update C"
  shows "dfas_added s' = dfas_added s \<and> SHRINKING_DFAS s' = SHRINKING_DFAS s"
proof -
  let ?Q = "\<lambda>s (out :: outcome) s'. dfas_added s' = dfas_added s \<and> SHRINKING_DFAS s' = SHRINKING_DFAS s"
  have "(\<forall>s out s'. normalize_outer n E C s = Some (out, s') \<longrightarrow> ?Q s out s')
       \<and> (\<forall>s a t out s'. normalize_inner n E C s a t = Some (out, s') \<longrightarrow> ?Q s out s')"
  proof (rule normalize_loops_rule)
    fix s s1 a t out s'
    assume "inner_body E C s a t = Again s1" and "?Q s1 out s'"
    then show "?Q s out s'" using inner_body_again [of E C s a t s1] assms(2) by simp
  next
    fix s s1 a t e
    assume "inner_body E C s a t = InnerRaise e s1"
    then show "?Q s (Raised e) s1" using inner_body_raise [of E C s a t e s1] assms(2) by auto
  next
    fix s s1 a t out s'
    assume "inner_body E C s a t = Break s1" and "?Q s1 out s'"
    then show "?Q s out s'" using inner_body_break [of E C s a t s1] by simp
  next
    fix s s1 out s'
    assume "outer_body E s = Continue s1" and "?Q s1 out s'"
    then show "?Q s out s'" using outer_body_frame [of E s s1] by simp
  next
    fix s s1 a t out s'
    assume "outer_body E s = Enter s1 a t" and "?Q s1 out s'"
    then show "?Q s out s'" using outer_body_frame [of E s s1 a t] by simp
  next
    fix s s1 e
    assume "outer_body E s = OuterRaise e s1"
    then show "?Q s (Raised e) s1" using outer_body_frame [of E s s1 _ _ e] by auto
  qed simp
  with assms show ?thesis by blast
qed


section \<open>The retry budget\<close>

lemma outer_body_failing:
  assumes "failing_attempts (Suc 0) E (runner s)"
  shows "outer_body E s =
    (if found_interesting s \<or> failures_to_find_interesting s + 1 \<le> 1000
     then Continue (after_failures (Suc 0) E s)
     else OuterRaise AssertionError (after_failures (Suc 0) E s))"
  using assms by (simp add: outer_body_def after_failures_def Let_def case_prod_beta)

lemma attempts_runner_Suc:
  "attempts_runner (Suc k) E r = attempts_runner (Suc 0) E (attempts_runner k E r)"
  by (induction k arbitrary: r) simp_all

lemma failing_attempts_Suc:
  "failing_attempts (Suc k) E r
     = (failing_attempts k E r \<and> failing_attempts (Suc 0) E (attempts_runner k E r))"
  by (induction k arbitrary: r) auto

lemma after_failures_after:
  "after_failures k E (after_failures (Suc 0) E s) = after_failures (Suc k) E s"
  by (simp add: after_failures_def)

lemma failing_run:
  assumes "failing_attempts k E (runner s)"
    and "consecutive_successes s < required_successes C"
    and "found_interesting s \<or> failures_to_find_interesting s + int k \<le> 1000"
  shows "normalize_outer (k + m) E C s = normalize_outer m E C (after_failures k E s)"
  using assms
proof (induction k arbitrary: s)
  case 0
  show ?case by (simp add: after_failures_def)
next
  case (Suc k)
  let ?s1 = "after_failures (Suc 0) E s"
  from Suc.prems(1) have one: "failing_attempts (Suc 0) E (runner s)"
    and rest: "failing_attempts k E (runner ?s1)"
    by (simp_all add: after_failures_def)
  from Suc.prems(3) have ok: "found_interesting s \<or> failures_to_find_interesting s + 1 \<le> 1000"
    by auto
  have "normalize_outer (Suc k + m) E C s = normalize_outer (k + m) E C ?s1"
    using Suc.prems(2) ok outer_body_failing [OF one]
    by (simp add: normalize_outer.simps [of "Suc (k + m)"])
  also have "\<dots> = normalize_outer m E C (after_failures k E ?s1)"
  proof (rule Suc.IH [OF rest])
    show "consecutive_successes ?s1 < required_successes C"
      using Suc.prems(2) by (simp add: after_failures_def)
    show "found_interesting ?s1 \<or> failures_to_find_interesting ?s1 + int k \<le> 1000"
      using Suc.prems(3) by (auto simp: after_failures_def)
  qed
  finally show ?case by (simp add: after_failures_after)
qed

lemma failing_abort:
  assumes "failing_attempts (Suc 0) E (runner s)"
    and "consecutive_successes s < required_successes C"
    and "\<not> found_interesting s" and "failures_to_find_interesting s = 1000"
  shows "normalize_outer (Suc m) E C s = Some (Raised AssertionError, after_failures (Suc 0) E s)"
  using assms(2-) outer_body_failing [OF assms(1)]
  by (simp add: normalize_outer.simps [of "Suc m"])

lemma failing_attempts_add:
  "failing_attempts (j + k) E r
     = (failing_attempts j E r \<and> failing_attempts k E (attempts_runner j E r))"
  by (induction j arbitrary: r) auto

lemma attempts_runner_add:
  "attempts_runner (j + k) E r = attempts_runner k E (attempts_runner j E r)"
  by (induction j arbitrary: r) auto

lemma failing_abort_run:
  assumes "failing_attempts (Suc n) E (runner s)"
    and "consecutive_successes s < required_successes C"
    and "\<not> found_interesting s" and "failures_to_find_interesting s + int n = 1000"
  shows "normalize_outer (Suc n + m) E C s = Some (Raised AssertionError, after_failures (Suc n) E s)"
proof -
  let ?s1 = "after_failures n E s"
  from assms(1) have first: "failing_attempts n E (runner s)"
    and next1: "failing_attempts (Suc 0) E (runner ?s1)"
    using failing_attempts_Suc [of n E "runner s"] by (simp_all add: after_failures_def)
  have "normalize_outer (n + Suc m) E C s = normalize_outer (Suc m) E C ?s1"
    using first assms(2,4) by (intro failing_run) simp_all
  also have "\<dots> = Some (Raised AssertionError, after_failures (Suc 0) E ?s1)"
    using assms(2,3,4) by (intro failing_abort [OF next1]) (simp_all add: after_failures_def)
  also have "after_failures (Suc 0) E ?s1 = after_failures (Suc n) E s"
    using attempts_runner_Suc [of n E "runner s"] by (simp add: after_failures_def)
  finally show ?thesis by simp
qed

text \<open>
  C3, amended. While the loop runs and the next \<open>k\<close> attempts are not interesting: once an
  interesting case has been found, the loop just goes on, whatever \<open>k\<close> is; before any
  interesting case has been found, starting from a count of zero, the loop goes on through
  1000 such attempts and raises the assertion error at attempt 1001.
\<close>

theorem retry_budget:
  assumes "consecutive_successes s < required_successes C"
    and "failing_attempts k E (runner s)"
  shows "(found_interesting s \<longrightarrow>
            normalize_outer (k + m) E C s = normalize_outer m E C (after_failures k E s))
       \<and> (\<not> found_interesting s \<and> failures_to_find_interesting s = 0 \<longrightarrow>
            normalize_outer (k + m) E C s =
              (if k \<le> 1000 then normalize_outer m E C (after_failures k E s)
               else Some (Raised AssertionError, after_failures 1001 E s)))"
proof (intro conjI impI)
  assume "found_interesting s"
  with assms show "normalize_outer (k + m) E C s = normalize_outer m E C (after_failures k E s)"
    by (simp add: failing_run)
next
  assume init: "\<not> found_interesting s \<and> failures_to_find_interesting s = 0"
  show "normalize_outer (k + m) E C s =
      (if k \<le> 1000 then normalize_outer m E C (after_failures k E s)
       else Some (Raised AssertionError, after_failures 1001 E s))"
  proof (cases "k \<le> 1000")
    case True
    with assms init show ?thesis by (simp add: failing_run)
  next
    case False
    define n :: nat where "n = 1000"
    from False have "Suc n \<le> k" by (simp add: n_def)
    then obtain j where k: "k = Suc n + j" using le_Suc_ex by blast
    from assms(2) have first: "failing_attempts (Suc n) E (runner s)"
      unfolding k using failing_attempts_add [of "Suc n" j E "runner s"] by blast
    have "normalize_outer (Suc n + (j + m)) E C s
            = Some (Raised AssertionError, after_failures (Suc n) E s)"
      using assms(1) init by (intro failing_abort_run [OF first]) (simp_all add: n_def)
    moreover have "Suc n = 1001" by (simp add: n_def)
    ultimately show ?thesis using False by (simp add: k add.assoc)
  qed
qed


text \<open>Concrete runs.\<close>

lemma late_engine_failing: "r + k \<le> n \<Longrightarrow> failing_attempts k (late_engine n) r"
  by (induction k arbitrary: r) (simp_all add: late_engine_def)

lemma late_engine_runner: "attempts_runner k (late_engine n) r = r + k"
  by (induction k arbitrary: r) (simp_all add: late_engine_def)

lemma fuel4: "(4::nat) = Suc (Suc (Suc (Suc 0)))"
  by simp

text \<open>
  C3 as stated fails: 1000 attempts in a row that are not interesting, before any
  interesting case, and \<open>normalize\<close> goes on and returns normally.
\<close>

theorem thousand_failures_tolerated:
  "failing_attempts 1000 (late_engine 1000) 0
   \<and> normalize (1000 + 4) (late_engine 1000)
        \<lparr>base_name = [], required_successes = 1, allowed_to_update = False, max_dfas = 10\<rparr>
        0 [] \<lparr>contents = [], writes = 0\<rparr>
     = Some (Returned,
         \<lparr>runner = 1002,
          seen = [0 \<mapsto> \<lparr>status = INTERESTING, interesting_origin = 0, buffer = [],
                          has_discards = False\<rparr>],
          dfas_added = 0, found_interesting = True, consecutive_successes = 1,
          failures_to_find_interesting = 1000, SHRINKING_DFAS = []\<rparr>,
         \<lparr>contents = [], writes = 0\<rparr>)"
proof -
  let ?E = "late_engine 1000"
  let ?C = "\<lparr>base_name = [], required_successes = 1, allowed_to_update = False, max_dfas = 10\<rparr>"
  let ?s = "initial_session 0 [] :: (nat, nat, unit) session"
  have f: "failing_attempts 1000 ?E 0" by (rule late_engine_failing) simp
  have "normalize_outer (1000 + 4) ?E ?C ?s = normalize_outer 4 ?E ?C (after_failures 1000 ?E ?s)"
    using f by (intro failing_run) (simp_all add: initial_session_def)
  also have "after_failures 1000 ?E ?s = ?s\<lparr>runner := 1000, failures_to_find_interesting := 1000\<rparr>"
    by (simp add: after_failures_def late_engine_runner initial_session_def)
  also have "normalize_outer 4 ?E ?C (?s\<lparr>runner := 1000, failures_to_find_interesting := 1000\<rparr>)
      = Some (Returned,
         \<lparr>runner = 1002,
          seen = [0 \<mapsto> \<lparr>status = INTERESTING, interesting_origin = 0, buffer = [],
                          has_discards = False\<rparr>],
          dfas_added = 0, found_interesting = True, consecutive_successes = 1,
          failures_to_find_interesting = 1000, SHRINKING_DFAS = []\<rparr>)"
    unfolding fuel4
    by (simp add: initial_session_def
        normalize_outer.simps normalize_inner.simps outer_body_def inner_body_def target_shrink_def late_engine_def)
  finally show ?thesis using f by (simp add: normalize_def)
qed


section \<open>Divergence\<close>

lemma inner_body_diverging:
  assumes "seen s target = Some existing"
    and "buffer (fst (target_shrink E (runner s) attempt target)) \<noteq> buffer existing"
  shows "\<not> allowed_to_update C \<Longrightarrow> inner_body E C s attempt target =
      InnerRaise (FailedToNormalise (NotAllowedToLearn
          (snd (sorted_pair (buffer (fst (target_shrink E (runner s) attempt target))) (buffer existing)))
          (fst (sorted_pair (buffer (fst (target_shrink E (runner s) attempt target))) (buffer existing)))))
        (s\<lparr>runner := snd (target_shrink E (runner s) attempt target),
           consecutive_successes := 0\<rparr>)"
    and "allowed_to_update C \<Longrightarrow> max_dfas C \<le> dfas_added s \<Longrightarrow> inner_body E C s attempt target =
      InnerRaise (FailedToNormalise TooHardToLearn)
        (s\<lparr>runner := snd (target_shrink E (runner s) attempt target),
           consecutive_successes := 0\<rparr>)"
  using assms by (simp_all add: inner_body_def case_prod_beta Let_def)


lemma normalize_cases:
  assumes "normalize n E C r dfas f = Some (out, s', f')"
  shows "\<exists>out0. normalize_outer n E C (initial_session r dfas) = Some (out0, s')
           \<and> (out = Returned \<longrightarrow> out0 = Returned)
           \<and> (dfas_added s' \<le> 0 \<longrightarrow> f' = f)"
  using assms
  by (auto simp: normalize_def split: option.splits outcome.splits prod.splits if_splits sum.splits)

text \<open>
  C8. When \<open>allowed_to_update\<close> is false, a shrunk result whose buffer differs from the
  recorded one raises \<open>FailedToNormalise\<close> in that very pass: the session changes only in
  the runner state left by the shrinker and in the success counter. However a session
  ends, it has counted no learned automaton, the registry is the one it started with and
  the file is untouched.
\<close>

theorem learning_disallowed:
  assumes "\<not> allowed_to_update C"
  shows "(seen s target = Some existing
            \<and> buffer (fst (target_shrink E (runner s) attempt target)) \<noteq> buffer existing \<longrightarrow>
            normalize_inner (Suc m) E C s attempt target =
              Some (Raised (FailedToNormalise (NotAllowedToLearn
                      (snd (sorted_pair (buffer (fst (target_shrink E (runner s) attempt target)))
                                        (buffer existing)))
                      (fst (sorted_pair (buffer (fst (target_shrink E (runner s) attempt target)))
                                        (buffer existing))))),
                    s\<lparr>runner := snd (target_shrink E (runner s) attempt target),
                      consecutive_successes := 0\<rparr>))
       \<and> (normalize n E C r dfas f = Some (out, s', f') \<longrightarrow>
            dfas_added s' = 0 \<and> SHRINKING_DFAS s' = dfas \<and> f' = f)"
proof -
  have raise: "normalize_inner (Suc m) E C s attempt target =
              Some (Raised (FailedToNormalise (NotAllowedToLearn
                      (snd (sorted_pair (buffer (fst (target_shrink E (runner s) attempt target)))
                                        (buffer existing)))
                      (fst (sorted_pair (buffer (fst (target_shrink E (runner s) attempt target)))
                                        (buffer existing))))),
                    s\<lparr>runner := snd (target_shrink E (runner s) attempt target),
                      consecutive_successes := 0\<rparr>)"
    if "seen s target = Some existing
            \<and> buffer (fst (target_shrink E (runner s) attempt target)) \<noteq> buffer existing"
    using that assms by (simp add: normalize_inner.simps [of "Suc m"] inner_body_diverging(1))
  have session: "dfas_added s' = 0 \<and> SHRINKING_DFAS s' = dfas \<and> f' = f"
    if run: "normalize n E C r dfas f = Some (out, s', f')"
  proof -
    from normalize_cases [OF run] obtain out0
      where outer: "normalize_outer n E C (initial_session r dfas) = Some (out0, s')"
        and same: "dfas_added s' \<le> 0 \<longrightarrow> f' = f" by blast
    show ?thesis
      using outer_not_allowed [OF outer assms] same by (simp add: initial_session_def)
  qed
  from raise session show ?thesis by blast
qed


theorem retry_budget_witness:
  "consecutive_successes (initial_session 0 [] :: (nat, nat, unit) session)
      < required_successes (demo_config 1 False 10)
   \<and> failing_attempts 1001 (late_engine 1001) 0
   \<and> normalize_outer (1001 + 0) (late_engine 1001) (demo_config 1 False 10) (initial_session 0 [])
       = Some (Raised AssertionError, after_failures 1001 (late_engine 1001) (initial_session 0 []))
   \<and> normalize_outer (1001 + 1) (late_engine 1001) (demo_config 1 False 10)
         ((initial_session 0 [])\<lparr>found_interesting := True\<rparr>)
       = normalize_outer 1 (late_engine 1001) (demo_config 1 False 10)
           (after_failures 1001 (late_engine 1001) ((initial_session 0 [])\<lparr>found_interesting := True\<rparr>))"
proof -
  let ?E = "late_engine 1001"
  let ?C = "demo_config 1 False 10"
  let ?s = "initial_session 0 [] :: (nat, nat, unit) session"
  have c: "consecutive_successes ?s < required_successes ?C"
    and c': "consecutive_successes (?s\<lparr>found_interesting := True\<rparr>) < required_successes ?C"
    by (simp_all add: initial_session_def demo_config_def)
  have f: "failing_attempts 1001 ?E (runner ?s)"
    and f': "failing_attempts 1001 ?E (runner (?s\<lparr>found_interesting := True\<rparr>))"
    by (rule late_engine_failing, simp add: initial_session_def)+
  have i: "\<not> found_interesting ?s \<and> failures_to_find_interesting ?s = 0"
    by (simp add: initial_session_def)
  have "\<not> (1001::nat) \<le> 1000" by simp
  with retry_budget [OF c f, of 0] i retry_budget [OF c' f', of 1] c f
  show ?thesis by (simp add: initial_session_def)
qed




lemma flaky_run_disallowed:
  "normalize 4 flaky_engine (demo_config 1 False 10) 0 [] empty_file
     = Some (Raised (FailedToNormalise (NotAllowedToLearn [1] [0])),
         \<lparr>runner = 2, seen = [0 \<mapsto> interesting_result 0 [0]], dfas_added = 0,
          found_interesting = True, consecutive_successes = 0,
          failures_to_find_interesting = 0, SHRINKING_DFAS = []\<rparr>,
         empty_file)"
  unfolding fuel4
  by (simp add: normalize_def initial_session_def demo_config_def interesting_result_def
      normalize_outer.simps normalize_inner.simps outer_body_def inner_body_def
      target_shrink_def flaky_engine_def sorted_pair_def sort_key_bytes_def)


section \<open>The success counter\<close>

lemma matching_round_step:
  assumes "matching_round E s" and "consecutive_successes s < required_successes C"
  shows "normalize_outer (Suc (Suc m)) E C s = normalize_outer m E C (after_round E s)"
proof -
  obtain attempt r where a: "cached_test_function E (runner s) [] (BUFFER_SIZE E) = (attempt, r)"
    by (cases "cached_test_function E (runner s) [] (BUFFER_SIZE E)")
  obtain shrunk r' where sh: "target_shrink E r attempt (interesting_origin attempt) = (shrunk, r')"
    by (cases "target_shrink E r attempt (interesting_origin attempt)")
  from assms(1) a sh obtain existing
    where int: "\<not> status_value (status attempt) < status_value INTERESTING"
      and ex: "seen s (interesting_origin attempt) = Some existing"
      and same: "buffer shrunk = buffer existing"
    by (auto simp: matching_round_def round_attempt_def round_shrunk_def Let_def
        split: option.splits)
  let ?s1 = "s\<lparr>runner := r, found_interesting := True\<rparr>"
  have ob: "outer_body E s = Enter ?s1 attempt (interesting_origin attempt)"
    using a int by (simp add: outer_body_def)
  have ib: "inner_body E C ?s1 attempt (interesting_origin attempt) = Break (after_round E s)"
    using a sh ex same
    by (simp add: inner_body_def after_round_def round_shrunk_def round_attempt_def)
  show ?thesis
    using assms(2) ob ib
    by (simp add: normalize_outer.simps [of "Suc (Suc m)"] normalize_inner.simps [of "Suc m"])
qed

lemma after_rounds_successes:
  "consecutive_successes (after_rounds k E s) = consecutive_successes s + int k"
  by (induction k arbitrary: s) (simp_all add: after_round_def)

lemma matching_run:
  assumes "matching_rounds k E s"
    and "consecutive_successes s + int k \<le> required_successes C"
  shows "normalize_outer (2 * k + m) E C s = normalize_outer m E C (after_rounds k E s)"
  using assms
proof (induction k arbitrary: s)
  case 0
  show ?case by simp
next
  case (Suc k)
  from Suc.prems have one: "matching_round E s" and rest: "matching_rounds k E (after_round E s)"
    and lt: "consecutive_successes s < required_successes C"
    and le: "consecutive_successes (after_round E s) + int k \<le> required_successes C"
    by (simp_all add: after_round_def)
  have "normalize_outer (2 * Suc k + m) E C s = normalize_outer (Suc (Suc (2 * k + m))) E C s"
    by simp
  also have "\<dots> = normalize_outer (2 * k + m) E C (after_round E s)"
    by (rule matching_round_step [OF one lt])
  also have "\<dots> = normalize_outer m E C (after_rounds k E (after_round E s))"
    by (rule Suc.IH [OF rest le])
  finally show ?case by simp
qed

text \<open>
  C10. There is one success counter in the session. \<open>k\<close> matching rounds, of whatever
  origins, that bring the counter to \<open>required_successes\<close> end the session right after the
  last of them. A shrunk result equal to the recorded one for its origin adds one to the
  counter; a shrunk result that differs leaves the counter at zero, in the session that
  goes on learning and in the one that raises.
\<close>

theorem shared_success_counter:
  "(matching_rounds k E s \<and> consecutive_successes s + int k = required_successes C \<longrightarrow>
      normalize_outer (2 * k + m) E C s = Some (Returned, after_rounds k E s)
      \<and> consecutive_successes (after_rounds k E s) = required_successes C)
   \<and> (seen s target = Some existing
        \<and> buffer (fst (target_shrink E (runner s) attempt target)) = buffer existing \<longrightarrow>
      inner_body E C s attempt target =
        Break (s\<lparr>runner := snd (target_shrink E (runner s) attempt target),
                 consecutive_successes := consecutive_successes s + 1\<rparr>))
   \<and> (seen s target = Some existing
        \<and> buffer (fst (target_shrink E (runner s) attempt target)) \<noteq> buffer existing \<longrightarrow>
      (case inner_body E C s attempt target of
         Break s' \<Rightarrow> False
       | Again s' \<Rightarrow> consecutive_successes s' = 0
       | InnerRaise e s' \<Rightarrow> consecutive_successes s' = 0
       | Hang \<Rightarrow> True))"
proof -
  have ends: "normalize_outer (2 * k + m) E C s = Some (Returned, after_rounds k E s)
      \<and> consecutive_successes (after_rounds k E s) = required_successes C"
    if "matching_rounds k E s \<and> consecutive_successes s + int k = required_successes C"
  proof -
    from that have "normalize_outer (2 * k + m) E C s = normalize_outer m E C (after_rounds k E s)"
      by (intro matching_run) simp_all
    moreover have "consecutive_successes (after_rounds k E s) = required_successes C"
      using that by (simp add: after_rounds_successes)
    ultimately show ?thesis by (simp add: normalize_outer.simps [of m])
  qed
  have up: "inner_body E C s attempt target =
        Break (s\<lparr>runner := snd (target_shrink E (runner s) attempt target),
                 consecutive_successes := consecutive_successes s + 1\<rparr>)"
    if "seen s target = Some existing
        \<and> buffer (fst (target_shrink E (runner s) attempt target)) = buffer existing"
    using that by (simp add: inner_body_def case_prod_beta)
  have reset: "(case inner_body E C s attempt target of
         Break s' \<Rightarrow> False
       | Again s' \<Rightarrow> consecutive_successes s' = 0
       | InnerRaise e s' \<Rightarrow> consecutive_successes s' = 0
       | Hang \<Rightarrow> True)"
    if d: "seen s target = Some existing
        \<and> buffer (fst (target_shrink E (runner s) attempt target)) \<noteq> buffer existing"
  proof (cases "inner_body E C s attempt target")
    case (Break s1)
    with d show ?thesis
      by (auto simp: inner_body_def case_prod_beta Let_def learn_new_dfa_not_break
          split: if_splits)
  next
    case (Again s1)
    then show ?thesis using inner_body_again [of E C s attempt target s1] by simp
  next
    case (InnerRaise e s1)
    then show ?thesis using inner_body_raise [of E C s attempt target e s1] by simp
  next
    case Hang
    then show ?thesis by simp
  qed
  from ends up reset show ?thesis by blast
qed




theorem learning_disallowed_witness:
  "\<not> allowed_to_update (demo_config 1 False 10)
   \<and> normalize 4 flaky_engine (demo_config 1 False 10) 0 [] empty_file
       = Some (Raised (FailedToNormalise (NotAllowedToLearn [1] [0])),
           \<lparr>runner = 2, seen = [0 \<mapsto> interesting_result 0 [0]], dfas_added = 0,
            found_interesting = True, consecutive_successes = 0,
            failures_to_find_interesting = 0, SHRINKING_DFAS = []\<rparr>,
           empty_file)
   \<and> normalize_inner (Suc 0) flaky_engine (demo_config 1 False 10)
         \<lparr>runner = 1, seen = [0 \<mapsto> interesting_result 0 [0]], dfas_added = 0,
          found_interesting = True, consecutive_successes = 5,
          failures_to_find_interesting = 0, SHRINKING_DFAS = []\<rparr>
         (interesting_result 0 [1]) 0
       = Some (Raised (FailedToNormalise (NotAllowedToLearn [1] [0])),
           \<lparr>runner = 1, seen = [0 \<mapsto> interesting_result 0 [0]], dfas_added = 0,
            found_interesting = True, consecutive_successes = 0,
            failures_to_find_interesting = 0, SHRINKING_DFAS = []\<rparr>)"
proof -
  let ?C = "demo_config 1 False 10"
  let ?S = "\<lparr>runner = 1::nat, seen = [0::nat \<mapsto> interesting_result 0 [0]], dfas_added = 0,
            found_interesting = True, consecutive_successes = 5,
            failures_to_find_interesting = 0, SHRINKING_DFAS = [] :: unit registry\<rparr>"
  have no: "\<not> allowed_to_update ?C"
    by (simp add: demo_config_def)
  have div: "seen ?S 0 = Some (interesting_result 0 [0])
      \<and> buffer (fst (target_shrink flaky_engine (runner ?S) (interesting_result 0 [1]) 0))
          \<noteq> buffer (interesting_result 0 [0])"
    by (simp add: target_shrink_def flaky_engine_def interesting_result_def)
  from learning_disallowed [OF no, where s = ?S and target = 0
      and existing = "interesting_result 0 [0]" and E = flaky_engine
      and attempt = "interesting_result 0 [1]" and m = 0 and n = 4 and r = 0 and dfas = "[]"
      and f = empty_file and out = "Raised (FailedToNormalise (NotAllowedToLearn [1] [0]))"
      and f' = empty_file
      and s' = "\<lparr>runner = 2, seen = [0 \<mapsto> interesting_result 0 [0]], dfas_added = 0,
            found_interesting = True, consecutive_successes = 0,
            failures_to_find_interesting = 0, SHRINKING_DFAS = []\<rparr>"]
    flaky_run_disallowed div no
  show ?thesis
    by (simp add: target_shrink_def flaky_engine_def sorted_pair_def sort_key_bytes_def
        interesting_result_def)
qed

theorem shared_success_counter_witness:
  "matching_rounds 2 two_origins
      \<lparr>runner = 2, seen = [0 \<mapsto> interesting_result 0 [0], 1 \<mapsto> interesting_result 1 [1]],
       dfas_added = 0, found_interesting = True, consecutive_successes = 0,
       failures_to_find_interesting = 0, SHRINKING_DFAS = []\<rparr>
   \<and> normalize_outer (2 * 2 + 0) two_origins (demo_config 2 False 10)
      \<lparr>runner = 2, seen = [0 \<mapsto> interesting_result 0 [0], 1 \<mapsto> interesting_result 1 [1]],
       dfas_added = 0, found_interesting = True, consecutive_successes = 0,
       failures_to_find_interesting = 0, SHRINKING_DFAS = []\<rparr>
     = Some (Returned,
      \<lparr>runner = 4, seen = [0 \<mapsto> interesting_result 0 [0], 1 \<mapsto> interesting_result 1 [1]],
       dfas_added = 0, found_interesting = True, consecutive_successes = 2,
       failures_to_find_interesting = 0, SHRINKING_DFAS = []\<rparr>)
   \<and> inner_body two_origins (demo_config 2 False 10)
      \<lparr>runner = 2, seen = [0 \<mapsto> interesting_result 0 [0], 1 \<mapsto> interesting_result 1 [1]],
       dfas_added = 0, found_interesting = True, consecutive_successes = 0,
       failures_to_find_interesting = 0, SHRINKING_DFAS = []\<rparr>
      (interesting_result 1 [1]) 1
     = Break
      \<lparr>runner = 2, seen = [0 \<mapsto> interesting_result 0 [0], 1 \<mapsto> interesting_result 1 [1]],
       dfas_added = 0, found_interesting = True, consecutive_successes = 1,
       failures_to_find_interesting = 0, SHRINKING_DFAS = []\<rparr>
   \<and> (case inner_body two_origins (demo_config 2 False 10)
      \<lparr>runner = 2, seen = [0 \<mapsto> interesting_result 0 [0], 1 \<mapsto> interesting_result 1 [1]],
       dfas_added = 0, found_interesting = True, consecutive_successes = 0,
       failures_to_find_interesting = 0, SHRINKING_DFAS = []\<rparr>
      (interesting_result 1 [7]) 1 of
        Break s' \<Rightarrow> False
      | Again s' \<Rightarrow> consecutive_successes s' = 0
      | InnerRaise e s' \<Rightarrow> consecutive_successes s' = 0
      | Hang \<Rightarrow> True)"
proof -
  let ?S = "\<lparr>runner = 2::nat, seen = [0::nat \<mapsto> interesting_result 0 [0], 1 \<mapsto> interesting_result 1 [1]],
       dfas_added = 0, found_interesting = True, consecutive_successes = 0,
       failures_to_find_interesting = 0, SHRINKING_DFAS = [] :: unit registry\<rparr>"
  let ?C = "demo_config 2 False 10"
  have two: "(2::nat) = Suc (Suc 0)" by simp
  have m: "matching_rounds 2 two_origins ?S"
    unfolding two
    by (simp add: matching_round_def round_attempt_def round_shrunk_def after_round_def
        target_shrink_def two_origins_def interesting_result_def)
  have a: "after_rounds 2 two_origins ?S = ?S\<lparr>runner := 4, consecutive_successes := 2\<rparr>"
    unfolding two
    by (simp add: round_attempt_def round_shrunk_def after_round_def
        target_shrink_def two_origins_def interesting_result_def)
  have same: "seen ?S 1 = Some (interesting_result 1 [1])
      \<and> buffer (fst (target_shrink two_origins (runner ?S) (interesting_result 1 [1]) 1))
          = buffer (interesting_result 1 [1])"
    and differ: "seen ?S 1 = Some (interesting_result 1 [1])
      \<and> buffer (fst (target_shrink two_origins (runner ?S) (interesting_result 1 [7]) 1))
          \<noteq> buffer (interesting_result 1 [1])"
    by (simp_all add: target_shrink_def two_origins_def interesting_result_def)
  from shared_success_counter [where k = 2 and E = two_origins and s = ?S and C = ?C
      and m = 0 and target = 1 and existing = "interesting_result 1 [1]"
      and attempt = "interesting_result 1 [1]"]
    shared_success_counter [where k = 2 and E = two_origins and s = ?S and C = ?C
      and m = 0 and target = 1 and existing = "interesting_result 1 [1]"
      and attempt = "interesting_result 1 [7]"]
    m a same differ
  show ?thesis by (simp add: demo_config_def target_shrink_def two_origins_def)
qed

section \<open>Rewriting the registry file\<close>

lemma nobreak_simps [simp]:
  "nobreak []" "nobreak (c # l) = (\<not> linebreak c \<and> nobreak l)"
  "nobreak (l @ l') = (nobreak l \<and> nobreak l')"
  by (auto simp: nobreak_def)

lemma splitlines_from_line:
  "nobreak l \<Longrightarrow> splitlines_from cur (l @ 10 # rest) = (cur @ l) # splitlines_from [] rest"
proof (induction l arbitrary: cur)
  case Nil
  show ?case by (simp add: linebreak_def)
next
  case (Cons c l)
  then have "\<not> linebreak c" and "nobreak l" by simp_all
  moreover from this have "c \<noteq> 13" by (auto simp: linebreak_def)
  ultimately show ?case using Cons.IH [of "cur @ [c]"] by simp
qed

lemma join_Cons: "ls \<noteq> [] \<Longrightarrow> join sep (l # ls) = l @ sep @ join sep ls"
  by (cases ls) simp_all

lemma splitlines_from_join:
  assumes "\<forall>l \<in> set pre. nobreak l" and "ls \<noteq> []"
  shows "splitlines_from [] (join [10] (pre @ ls) @ rest)
           = pre @ splitlines_from [] (join [10] ls @ rest)"
  using assms(1)
proof (induction pre)
  case Nil
  show ?case by simp
next
  case (Cons p pre)
  from assms(2) have "join [10] (p # (pre @ ls)) = p @ [10] @ join [10] (pre @ ls)"
    by (intro join_Cons) simp
  then have "splitlines_from [] (join [10] ((p # pre) @ ls) @ rest)
      = splitlines_from [] (p @ 10 # (join [10] (pre @ ls) @ rest))"
    by simp
  also have "\<dots> = p # splitlines_from [] (join [10] (pre @ ls) @ rest)"
    using Cons.prems splitlines_from_line [of p "[]"] by simp
  finally show ?case using Cons by simp
qed

lemma splitlines_join:
  assumes "\<forall>l \<in> set ls. nobreak l" and "ls \<noteq> []"
  shows "splitlines (join [10] ls @ [10]) = ls"
proof -
  obtain pre l where ls: "ls = pre @ [l]"
    using assms(2) by (metis append_butlast_last_id)
  have "splitlines_from [] (join [10] (pre @ [l]) @ [10]) = pre @ splitlines_from [] (join [10] [l] @ [10])"
    using assms(1) by (intro splitlines_from_join) (simp_all add: ls)
  also have "splitlines_from [] (join [10] [l] @ [10]) = [l]"
    using assms(1) splitlines_from_line [of l "[]" "[]"] by (simp add: ls)
  finally show ?thesis by (simp add: splitlines_def ls)
qed

lemma splitlines_from_nobreak:
  "nobreak cur \<Longrightarrow> l \<in> set (splitlines_from cur s) \<Longrightarrow> nobreak l"
proof (induction cur s rule: splitlines_from.induct)
  case (1 cur)
  then show ?case by (auto split: if_splits)
next
  case (2 cur c cs)
  then show ?case by (auto split: if_splits)
qed

lemma splitlines_nobreak: "l \<in> set (splitlines s) \<Longrightarrow> nobreak l"
  unfolding splitlines_def by (rule splitlines_from_nobreak [of "[]"]) simp_all

lemma index_Inr:
  "index xs x = Inr i \<Longrightarrow> i < length xs \<and> xs ! i = x \<and> x \<notin> set (take i xs)"
proof (induction xs arbitrary: i)
  case Nil
  then show ?case by simp
next
  case (Cons y ys)
  then show ?case by (auto split: if_splits sum.splits simp: nth_Cons')
qed


lemma literal_nobreak:
  "nobreak (str ''# fmt: off'')" "nobreak (str ''# fmt: on'')"
  "nobreak (str ''SHRINKING_DFAS['')" "nobreak (str ''] = '')" "nobreak (str '' # noqa: E501'')"
  by (simp_all add: str_def linebreak_def)


lemma new_lines_nobreak:
  assumes "\<forall>k. nobreak (rn k)" and "\<forall>d. nobreak (rd d)"
  shows "\<forall>l \<in> set (new_lines rn rd dfas (splitlines src) i). nobreak l"
  using assms
  by (auto simp: new_lines_def entry_line_def literal_nobreak
      dest: in_set_takeD splitlines_nobreak)

text \<open>
  C9. When \<open>update_learned_dfas\<close> succeeds, the marker \<open># AUTOGENERATED BEGINS\<close> is a line
  of the contents read, and the new contents are, each followed by a newline: the lines
  read up to and including the first marker line, an empty line, \<open># fmt: off\<close>, an empty
  line, for each entry of the registry sorted by name the line
  \<open>SHRINKING_DFAS[name] = automaton # noqa: E501\<close> with both written by \<open>%r\<close>, an empty
  line and \<open># fmt: on\<close>. The lines up to and including the marker are the first lines of
  the new contents; when no \<open>%r\<close> holds a line boundary the lines after the marker are
  those listed, one per entry. The sorted registry has its names in ascending order and
  holds the same entries as the registry, and the file is written exactly when the new
  contents differ from the contents read.
\<close>

theorem update_learned_dfas_regenerates:
  assumes "update_learned_dfas rn rd dfas f = Inr f'"
  shows "\<exists>i. index (splitlines (contents f)) (str ''# AUTOGENERATED BEGINS'') = Inr i
      \<and> splitlines (contents f) ! i = str ''# AUTOGENERATED BEGINS''
      \<and> contents f'
          = join [10]
              (take (i + 1) (splitlines (contents f))
               @ [[], str ''# fmt: off'', []]
               @ map (\<lambda>kv. str ''SHRINKING_DFAS['' @ rn (fst kv) @ str ''] = '' @ rd (snd kv)
                             @ str '' # noqa: E501'')
                   (sort_key fst dfas)
               @ [[], str ''# fmt: on''])
            @ [10]
      \<and> take (i + 1) (splitlines (contents f')) = take (i + 1) (splitlines (contents f))
      \<and> ((\<forall>k. nobreak (rn k)) \<and> (\<forall>d. nobreak (rd d)) \<longrightarrow>
           drop (i + 1) (splitlines (contents f'))
             = [[], str ''# fmt: off'', []]
               @ map (\<lambda>kv. str ''SHRINKING_DFAS['' @ rn (fst kv) @ str ''] = '' @ rd (snd kv)
                             @ str '' # noqa: E501'')
                   (sort_key fst dfas)
               @ [[], str ''# fmt: on''])
      \<and> sorted (map fst (sort_key fst dfas)) \<and> mset (sort_key fst dfas) = mset dfas
      \<and> (if contents f' = contents f then f' = f
          else writes f' = writes f + 1)"
proof -
  let ?lines = "splitlines (contents f)"
  from assms obtain i where i: "index ?lines marker = Inr i"
    by (auto simp: update_learned_dfas_def Let_def split: sum.splits)
  let ?new = "join [10] (new_lines rn rd dfas ?lines i) @ [10]"
  from assms i have new: "contents f' = ?new"
    and wr: "if contents f' = contents f then f' = f else writes f' = writes f + 1"
    by (auto simp: update_learned_dfas_def Let_def split: if_splits)
  from index_Inr [OF i] have ilt: "i < length ?lines" and at: "?lines ! i = marker"
    by simp_all
  let ?pre = "take (i + 1) ?lines"
  let ?rest = "[[], str ''# fmt: off'', []]
               @ map (\<lambda>kv. str ''SHRINKING_DFAS['' @ rn (fst kv) @ str ''] = '' @ rd (snd kv)
                             @ str '' # noqa: E501'')
                   (sort_key fst dfas)
               @ [[], str ''# fmt: on'']"
  have nl: "new_lines rn rd dfas ?lines i = ?pre @ ?rest"
    by (simp add: new_lines_def entry_line_def [abs_def])
  have whole: "contents f' = join [10] (?pre @ ?rest) @ [10]"
    unfolding new nl ..
  have pre: "\<forall>l \<in> set ?pre. nobreak l"
    by (auto dest: in_set_takeD splitlines_nobreak)
  have len: "length ?pre = i + 1" using ilt by simp
  have "splitlines_from [] (join [10] (?pre @ ?rest) @ [10])
      = ?pre @ splitlines_from [] (join [10] ?rest @ [10])"
    by (rule splitlines_from_join [OF pre]) simp
  then have split: "splitlines ?new = ?pre @ splitlines_from [] (join [10] ?rest @ [10])"
    by (subst nl) (simp only: splitlines_def)
  then have keep: "take (i + 1) (splitlines (contents f')) = ?pre"
    using len by (simp add: new)
  have regen: "drop (i + 1) (splitlines (contents f')) = ?rest"
    if "(\<forall>k. nobreak (rn k)) \<and> (\<forall>d. nobreak (rd d))"
  proof -
    from that have "\<forall>l \<in> set (new_lines rn rd dfas ?lines i). nobreak l"
      by (intro new_lines_nobreak) simp_all
    then have "splitlines ?new = ?pre @ ?rest"
      unfolding nl [symmetric] by (intro splitlines_join) (simp_all add: new_lines_def)
    then show ?thesis using len by (simp add: new)
  qed
  have "sorted (map fst (sort_key fst dfas))" by (rule sorted_sort_key)
  moreover have "mset (sort_key fst dfas) = mset dfas" by simp
  ultimately show ?thesis
    using i at whole keep regen wr unfolding marker_def by blast
qed

text \<open>A concrete run: a file of three lines and a registry of two entries, \<open>b\<close> before \<open>a\<close>.\<close>

lemma demo_splitlines: "splitlines (contents demo_file) = demo_lines"
  unfolding demo_file_def
  by (simp, rule splitlines_join) (simp_all add: demo_lines_def marker_def str_def linebreak_def)

lemma demo_index: "index demo_lines marker = Inr 1"
  by (simp add: demo_lines_def marker_def str_def)

lemma demo_sorted: "sort_key fst demo_registry = [(str ''a'', ()), (str ''b'', ())]"
  by (simp add: demo_registry_def str_def)

lemma demo_repr_nobreak: "nobreak (demo_repr k)"
  by (simp add: demo_repr_def nobreak_def)

lemma demo_repr_literal: "demo_repr (str ''a'') = str ''a''" "demo_repr (str ''b'') = str ''b''"
  by (simp_all add: demo_repr_def str_def linebreak_def)

lemma demo_update:
  "update_learned_dfas demo_repr (\<lambda>d. str ''d'') demo_registry demo_file
     = Inr \<lparr>contents = join [10] (new_lines demo_repr (\<lambda>d. str ''d'') demo_registry demo_lines 1) @ [10],
            writes = 1\<rparr>"
proof -
  have "join [10] (new_lines demo_repr (\<lambda>d. str ''d'') demo_registry demo_lines 1) @ [10]
      \<noteq> contents demo_file"
    by (simp add: new_lines_def demo_file_def demo_lines_def str_def)
  then show ?thesis
    by (simp add: update_learned_dfas_def demo_splitlines demo_index Let_def)
      (simp add: demo_file_def)
qed

lemma demo_new_lines:
  "new_lines demo_repr (\<lambda>d. str ''d'') demo_registry demo_lines 1
     = [str ''x = 1'', str ''# AUTOGENERATED BEGINS'', [], str ''# fmt: off'', [],
        str ''SHRINKING_DFAS[a] = d # noqa: E501'',
        str ''SHRINKING_DFAS[b] = d # noqa: E501'',
        [], str ''# fmt: on'']"
  by (simp add: new_lines_def demo_sorted entry_line_def demo_repr_literal demo_lines_def
      marker_def) (simp add: str_def)

theorem update_learned_dfas_witness:
  "update_learned_dfas demo_repr (\<lambda>d. str ''d'') [(str ''b'', ()), (str ''a'', ())]
       \<lparr>contents = join [10] [str ''x = 1'', str ''# AUTOGENERATED BEGINS'', str ''old''] @ [10],
        writes = 0\<rparr>
     = Inr \<lparr>contents = join [10]
               [str ''x = 1'', str ''# AUTOGENERATED BEGINS'', [], str ''# fmt: off'', [],
                str ''SHRINKING_DFAS[a] = d # noqa: E501'',
                str ''SHRINKING_DFAS[b] = d # noqa: E501'',
                [], str ''# fmt: on''] @ [10],
            writes = 1\<rparr>
   \<and> splitlines (join [10]
               [str ''x = 1'', str ''# AUTOGENERATED BEGINS'', [], str ''# fmt: off'', [],
                str ''SHRINKING_DFAS[a] = d # noqa: E501'',
                str ''SHRINKING_DFAS[b] = d # noqa: E501'',
                [], str ''# fmt: on''] @ [10])
     = [str ''x = 1'', str ''# AUTOGENERATED BEGINS'', [], str ''# fmt: off'', [],
        str ''SHRINKING_DFAS[a] = d # noqa: E501'',
        str ''SHRINKING_DFAS[b] = d # noqa: E501'',
        [], str ''# fmt: on'']"
proof -
  let ?out = "[str ''x = 1'', str ''# AUTOGENERATED BEGINS'', [], str ''# fmt: off'', [],
        str ''SHRINKING_DFAS[a] = d # noqa: E501'',
        str ''SHRINKING_DFAS[b] = d # noqa: E501'',
        [], str ''# fmt: on'']"
  let ?f' = "\<lparr>contents = join [10] ?out @ [10], writes = 1\<rparr>"
  have run: "update_learned_dfas demo_repr (\<lambda>d. str ''d'') demo_registry demo_file = Inr ?f'"
    using demo_update unfolding demo_new_lines .
  from update_learned_dfas_regenerates [OF run] obtain i
    where i: "index (splitlines (contents demo_file)) (str ''# AUTOGENERATED BEGINS'') = Inr i"
      and keep: "take (i + 1) (splitlines (contents ?f')) = take (i + 1) (splitlines (contents demo_file))"
      and regen: "(\<forall>k. nobreak (demo_repr k)) \<and> (\<forall>d :: unit. nobreak (str ''d'')) \<longrightarrow>
           drop (i + 1) (splitlines (contents ?f'))
             = [[], str ''# fmt: off'', []]
               @ map (\<lambda>kv. str ''SHRINKING_DFAS['' @ demo_repr (fst kv) @ str ''] = '' @ str ''d''
                             @ str '' # noqa: E501'')
                   (sort_key fst demo_registry)
               @ [[], str ''# fmt: on'']"
    by blast
  from i have i1: "i = 1" using demo_index by (simp add: demo_splitlines marker_def)
  have "nobreak (str ''d'')" by (simp add: str_def linebreak_def)
  with regen have "drop 2 (splitlines (join [10] ?out @ [10]))
      = [[], str ''# fmt: off'', [],
        str ''SHRINKING_DFAS['' @ str ''a'' @ str ''] = '' @ str ''d'' @ str '' # noqa: E501'',
        str ''SHRINKING_DFAS['' @ str ''b'' @ str ''] = '' @ str ''d'' @ str '' # noqa: E501'',
        [], str ''# fmt: on'']"
    by (simp add: i1 demo_repr_nobreak demo_sorted demo_repr_literal numeral_2_eq_2)
  also have "\<dots> = drop 2 ?out"
    by (simp add: str_def)
  finally have d: "drop 2 (splitlines (join [10] ?out @ [10])) = drop 2 ?out" .
  from keep have "take 2 (splitlines (join [10] ?out @ [10])) = take 2 ?out"
    by (simp add: i1 demo_splitlines demo_lines_def marker_def numeral_2_eq_2)
  with d have "splitlines (join [10] ?out @ [10]) = ?out"
    by (metis append_take_drop_id)
  with run show ?thesis
    by (simp add: demo_registry_def demo_file_def demo_lines_def marker_def)
qed

section \<open>The learning budget\<close>








lemma inner_body_again_cases:
  assumes "inner_body E C s a t = Again s'"
  shows "\<exists>existing. seen s t = Some existing
           \<and> buffer (fst (target_shrink E (runner s) a t)) \<noteq> buffer existing"
  using assms
  by (auto simp: inner_body_def Let_def case_prod_beta split: if_splits option.splits)









section \<open>Accepted strings\<close>

lemma byte_values_iff: "b \<in> set byte_values \<longleftrightarrow> b < 256"
  by (simp add: byte_values_def)

lemma byte_values_sorted: "sorted_wrt (<) byte_values"
  by (simp add: byte_values_def)

lemma transition_DEAD [simp]: "transition A None b = None"
  by (simp add: transition_def)

lemma transition_Some:
  "transition A s b = Some t \<Longrightarrow> b < 256 \<and> t < length (tables A) \<and> (\<exists>q < length (tables A). s = Some q)"
  by (auto simp: transition_def split: option.splits if_splits)

lemma run_Nil [simp]: "run A s [] = s"
  by (simp add: run_def)

lemma run_Cons [simp]: "run A s (b # w) = run A (transition A s b) w"
  by (simp add: run_def)

lemma run_append: "run A s (u @ v) = run A (run A s u) v"
  by (simp add: run_def)

lemma run_DEAD [simp]: "run A None w = None"
  by (induction w) simp_all

lemma accepts_from_Nil [simp]: "accepts_from A s [] = is_accepting A s"
  by (simp add: accepts_from_def)

lemma accepts_from_Cons [simp]:
  "accepts_from A s (b # w) = accepts_from A (transition A s b) w"
  by (simp add: accepts_from_def)

lemma accepts_from_DEAD [simp]: "\<not> accepts_from A None w"
  by (simp add: accepts_from_def is_accepting_def)

lemma matches_accepts: "matches A w = accepts_from A (Some (start A)) w"
  by (simp add: matches_def accepts_from_def)

lemma lang_list_DEAD [simp]: "lang_list A None n = []"
  by (induction n) (simp_all add: is_accepting_def)

lemma set_lang_list: "set (lang_list A s n) = {w. length w = n \<and> accepts_from A s w}"
proof (induction n arbitrary: s)
  case 0
  show ?case by auto
next
  case (Suc n)
  show ?case
  proof (intro set_eqI iffI)
    fix w assume "w \<in> set (lang_list A s (Suc n))"
    then obtain b w' where "w = b # w'" and "w' \<in> set (lang_list A (transition A s b) n)"
      by auto
    with Suc.IH show "w \<in> {w. length w = Suc n \<and> accepts_from A s w}" by simp
  next
    fix w assume "w \<in> {w. length w = Suc n \<and> accepts_from A s w}"
    then obtain b w' where w: "w = b # w'" and len: "length w' = n"
      and acc: "accepts_from A (transition A s b) w'"
      by (cases w) auto
    from acc obtain t where "transition A s b = Some t"
      by (cases "transition A s b") auto
    then have "b \<in> set byte_values" using transition_Some byte_values_iff by blast
    moreover from len acc Suc.IH have "w' \<in> set (lang_list A (transition A s b) n)" by simp
    ultimately show "w \<in> set (lang_list A s (Suc n))" using w by auto
  qed
qed

lemma count_strings_length: "count_strings A s n = length (lang_list A s n)"
proof (induction n arbitrary: s)
  case 0
  show ?case by simp
next
  case (Suc n)
  show ?case
  proof (cases s)
    case None
    then show ?thesis by simp
  next
    case (Some q)
    then show ?thesis
      by (simp add: length_concat comp_def Suc.IH)
  qed
qed

lemma sorted_blocks:
  assumes "sorted_wrt (<) bs" and "\<And>b. sorted_wrt (<) (f b)"
  shows "sorted_wrt (<) (concat (map (\<lambda>b. map ((#) b) (f b)) bs) :: nat list list)"
  using assms(1)
proof (induction bs)
  case Nil
  show ?case by simp
next
  case (Cons b bs)
  have "sorted_wrt (<) (map ((#) b) (f b))"
    using assms(2) [of b] by (simp add: sorted_wrt_map)
  moreover have "sorted_wrt (<) (concat (map (\<lambda>b. map ((#) b) (f b)) bs))"
    using Cons by simp
  moreover have "\<forall>x \<in> set (map ((#) b) (f b)). \<forall>y \<in> set (concat (map (\<lambda>b. map ((#) b) (f b)) bs)). x < y"
    using Cons.prems by auto
  ultimately show ?case by (simp add: sorted_wrt_append)
qed

lemma lang_list_sorted: "sorted_wrt (<) (lang_list A s n)"
proof (induction n arbitrary: s)
  case 0
  show ?case by simp
next
  case (Suc n)
  show ?case
    unfolding lang_list.simps
    by (rule sorted_blocks [OF byte_values_sorted]) (rule Suc.IH)
qed

lemma select_byte_nth:
  assumes "k < length (concat (map (\<lambda>b. map ((#) b) (lang_list A (transition A s b) n)) bs))"
  shows "\<exists>b k'. select_byte A s n k bs = Some (b, k')
           \<and> k' < length (lang_list A (transition A s b) n)
           \<and> concat (map (\<lambda>b. map ((#) b) (lang_list A (transition A s b) n)) bs) ! k
               = b # (lang_list A (transition A s b) n ! k')"
  using assms
proof (induction bs arbitrary: k)
  case Nil
  then show ?case by simp
next
  case (Cons b bs)
  let ?block = "lang_list A (transition A s b) n"
  show ?case
  proof (cases "k < length ?block")
    case True
    then show ?thesis
      by (simp add: count_strings_length nth_append)
  next
    case False
    with Cons.prems have "k - length ?block
        < length (concat (map (\<lambda>b. map ((#) b) (lang_list A (transition A s b) n)) bs))"
      by simp
    from Cons.IH [OF this] False show ?thesis
      by (simp add: count_strings_length nth_append)
  qed
qed

lemma kth_string_nth:
  "k < length (lang_list A s n) \<Longrightarrow> kth_string A s n k = lang_list A s n ! k"
proof (induction n arbitrary: s k)
  case 0
  then show ?case by (simp split: if_splits)
next
  case (Suc n)
  from select_byte_nth [of k A s n byte_values] Suc.prems
  obtain b k' where sel: "select_byte A s n k byte_values = Some (b, k')"
    and k': "k' < length (lang_list A (transition A s b) n)"
    and nth: "lang_list A s (Suc n) ! k = b # (lang_list A (transition A s b) n ! k')"
    by auto
  from Suc.IH [OF k'] sel nth show ?case by simp
qed

lemma strings_of_length_lang: "strings_of_length A L = lang_list A (Some (start A)) L"
  unfolding strings_of_length_def count_strings_length
  by (rule nth_equalityI) (simp_all add: kth_string_nth)

section \<open>Dead states\<close>

lemma predecessors_iff:
  "q \<in> set (predecessors A R) \<longleftrightarrow> (\<exists>b t. transition A (Some q) b = Some t \<and> t \<in> set R)"
proof
  assume "q \<in> set (predecessors A R)"
  then show "\<exists>b t. transition A (Some q) b = Some t \<and> t \<in> set R"
    unfolding predecessors_def by (auto split: option.splits)
next
  assume "\<exists>b t. transition A (Some q) b = Some t \<and> t \<in> set R"
  then obtain b t where bt: "transition A (Some q) b = Some t" "t \<in> set R" by blast
  from transition_Some [OF bt(1)] have "b \<in> set byte_values" "q < length (tables A)"
    by (simp_all add: byte_values_iff)
  with bt show "q \<in> set (predecessors A R)"
    unfolding predecessors_def by force
qed

lemma backward_sound:
  "\<forall>q \<in> set R. alive A q \<Longrightarrow> \<forall>q \<in> set (backward A R). alive A q"
proof (induction A R rule: backward.induct)
  case (1 A R)
  show ?case
  proof (cases "fresh_predecessors A R = []")
    case True
    with "1.prems" show ?thesis by (simp add: backward.simps [of A R])
  next
    case False
    have "\<forall>q \<in> set (R @ fresh_predecessors A R). alive A q"
    proof
      fix q assume "q \<in> set (R @ fresh_predecessors A R)"
      then consider "q \<in> set R" | "q \<in> set (predecessors A R)"
        by (auto simp: fresh_predecessors_def)
      then show "alive A q"
      proof cases
        case 1
        with "1.prems" show ?thesis by blast
      next
        case 2
        then obtain b t where "transition A (Some q) b = Some t" "t \<in> set R"
          using predecessors_iff by blast
        moreover from this "1.prems" obtain w where "accepts_from A (Some t) w"
          by (auto simp: alive_def)
        ultimately have "accepts_from A (Some q) (b # w)" by simp
        then show ?thesis unfolding alive_def by blast
      qed
    qed
    from "1.IH" [OF False this] False show ?thesis by (simp add: backward.simps [of A R])
  qed
qed

lemma backward_closed:
  "set R \<subseteq> set (backward A R) \<and> set (predecessors A (backward A R)) \<subseteq> set (backward A R)"
proof (induction A R rule: backward.induct)
  case (1 A R)
  show ?case
  proof (cases "fresh_predecessors A R = []")
    case True
    then have "set (predecessors A R) \<subseteq> set R"
      by (auto simp: fresh_predecessors_def filter_empty_conv)
    with True show ?thesis by (simp add: backward.simps [of A R])
  next
    case False
    from "1.IH" [OF False] False show ?thesis by (simp add: backward.simps [of A R])
  qed
qed

lemma live_iff: "q \<in> set (live A) \<longleftrightarrow> alive A q"
proof
  assume "q \<in> set (live A)"
  moreover have "\<forall>q \<in> set (filter (\<lambda>q. q \<in> accepting A) [0..<length (tables A)]). alive A q"
  proof
    fix q assume "q \<in> set (filter (\<lambda>q. q \<in> accepting A) [0..<length (tables A)])"
    then have "accepts_from A (Some q) []" by (simp add: is_accepting_def)
    then show "alive A q" unfolding alive_def by blast
  qed
  ultimately show "alive A q" unfolding live_def using backward_sound by blast
next
  assume "alive A q"
  then obtain w where "accepts_from A (Some q) w" unfolding alive_def by blast
  then show "q \<in> set (live A)"
  proof (induction w arbitrary: q)
    case Nil
    then have "q \<in> set (filter (\<lambda>q. q \<in> accepting A) [0..<length (tables A)])"
      by (simp add: is_accepting_def)
    then show ?case unfolding live_def using backward_closed by blast
  next
    case (Cons b w)
    then obtain t where t: "transition A (Some q) b = Some t"
      by (cases "transition A (Some q) b") auto
    with Cons have "t \<in> set (live A)" by simp
    with t have "q \<in> set (predecessors A (live A))" using predecessors_iff by blast
    then show ?case unfolding live_def using backward_closed by blast
  qed
qed

lemma is_dead_iff: "is_dead A s \<longleftrightarrow> \<not> (\<exists>w. accepts_from A s w)"
  by (cases s) (simp_all add: is_dead_def live_iff alive_def)

lemma fold_max_upper: "x \<in> set xs \<Longrightarrow> x \<le> fold max xs (a :: enat)"
proof (induction xs arbitrary: a)
  case Nil
  then show ?case by simp
next
  case (Cons y ys)
  have mono: "a \<le> fold max ys a" for a :: enat
    by (induction ys arbitrary: a) (auto intro: order_trans [OF max.cobounded2])
  from Cons show ?case
    by (auto intro: order_trans [OF max.cobounded1 mono])
qed

lemma fold_max_mem: "fold max xs (a :: enat) \<in> set xs \<union> {a}"
proof (induction xs arbitrary: a)
  case Nil
  show ?case by simp
next
  case (Cons y ys)
  from Cons [of "max y a"] show ?case by (auto simp: max_def split: if_splits)
qed

section \<open>The longest accepted string\<close>

lemma max_length_from_unfold:
  "q \<notin> set V \<Longrightarrow> q < length (tables A) \<Longrightarrow>
   max_length_from A V q = fold max (map (step_length A V q) byte_values) 0"
  by (subst max_length_from.simps) (simp add: step_length_def [abs_def])

lemma max_length_from_finite:
  "max_length_from A V q = enat m \<Longrightarrow>
     (\<forall>w. accepts_from A (Some q) w \<longrightarrow> length w \<le> m)
     \<and> (alive A q \<longrightarrow> (\<exists>w. accepts_from A (Some q) w \<and> length w = m))"
proof (induction A V q arbitrary: m rule: max_length_from.induct)
  case (1 A V q)
  show ?case
  proof (cases "q \<in> set V \<or> length (tables A) \<le> q")
    case True
    with "1.prems" have big: "length (tables A) \<le> q"
      by (auto simp: max_length_from.simps [of A V q])
    have none: "\<not> accepts_from A (Some q) w" for w
    proof (cases w)
      case Nil
      with big show ?thesis by (simp add: is_accepting_def)
    next
      case (Cons b w')
      from big have "transition A (Some q) b = None" by (simp add: transition_def)
      with Cons show ?thesis by simp
    qed
    then show ?thesis by (simp add: alive_def)
  next
    case False
    then have qV: "q \<notin> set V" and qn: "q < length (tables A)" by simp_all
    let ?f = "step_length A V q"
    from "1.prems" have m: "fold max (map ?f byte_values) 0 = enat m"
      unfolding max_length_from_unfold [OF qV qn] .
    have sub: "(\<forall>w. accepts_from A (Some t) w \<longrightarrow> length w \<le> m')
        \<and> (alive A t \<longrightarrow> (\<exists>w. accepts_from A (Some t) w \<and> length w = m'))"
      if "b \<in> set byte_values" and "transition A (Some q) b = Some t"
        and "\<not> is_dead A (Some t)" and "max_length_from A (q # V) t = enat m'" for b t m'
      using "1.IH" [of b t m'] that qV qn by simp
    have upper: "length w \<le> m" if acc: "accepts_from A (Some q) w" for w
    proof (cases w)
      case Nil
      then show ?thesis by simp
    next
      case (Cons b w')
      with acc have acc': "accepts_from A (transition A (Some q) b) w'" by simp
      then obtain t where t: "transition A (Some q) b = Some t"
        by (cases "transition A (Some q) b") auto
      from transition_Some [OF t] have b: "b \<in> set byte_values" by (simp add: byte_values_iff)
      from acc' t have live: "\<not> is_dead A (Some t)" using is_dead_iff by auto
      from b have "?f b \<le> fold max (map ?f byte_values) 0" by (intro fold_max_upper) simp
      with m t live have le: "1 + max_length_from A (q # V) t \<le> enat m"
        by (simp add: step_length_def)
      then obtain m' where m': "max_length_from A (q # V) t = enat m'"
        by (cases "max_length_from A (q # V) t") auto
      with le have "Suc m' \<le> m" by (simp add: one_enat_def)
      moreover from sub [OF b t live m'] acc' t have "length w' \<le> m'" by simp
      ultimately show ?thesis using Cons by simp
    qed
    have exists: "\<exists>w. accepts_from A (Some q) w \<and> length w = m" if "alive A q"
    proof (cases m)
      case 0
      from that obtain w where w: "accepts_from A (Some q) w" unfolding alive_def by blast
      with upper [OF w] 0 show ?thesis by auto
    next
      case (Suc k)
      from fold_max_mem [of "map ?f byte_values" 0] m Suc
      obtain b where b: "b \<in> set byte_values" and fb: "?f b = enat m"
        by (auto simp: zero_enat_def)
      from fb Suc obtain t where t: "transition A (Some q) b = Some t"
        and live: "\<not> is_dead A (Some t)"
        and len: "1 + max_length_from A (q # V) t = enat (Suc k)"
        by (auto simp: step_length_def zero_enat_def split: option.splits if_splits)
      from len have m': "max_length_from A (q # V) t = enat k"
        by (cases "max_length_from A (q # V) t") (auto simp: one_enat_def)
      from live have "alive A t" by (simp add: is_dead_def live_iff)
      with sub [OF b t live m'] obtain w' where "accepts_from A (Some t) w'" "length w' = k"
        by blast
      with t Suc have "accepts_from A (Some q) (b # w') \<and> length (b # w') = m" by simp
      then show ?thesis by blast
    qed
    from upper exists show ?thesis by blast
  qed
qed

section \<open>Enumeration in shortlex order\<close>

lemma accepted_within_max_length:
  assumes "accepts_from A s w"
  shows "enat (length w) \<le> max_length A s"
proof (cases s)
  case None
  with assms show ?thesis by simp
next
  case (Some q)
  show ?thesis
  proof (cases "max_length_from A [] q")
    case (enat m)
    with max_length_from_finite [OF enat] assms Some show ?thesis
      by (simp add: max_length_def)
  next
    case infinity
    with Some show ?thesis by (simp add: max_length_def)
  qed
qed

lemma lang_list_length: "w \<in> set (lang_list A s n) \<Longrightarrow> length w = n"
  by (simp add: set_lang_list)

lemma lang_lists_shortlex:
  assumes "sorted_wrt (<) Ls"
  shows "sorted_wrt (\<lambda>u v. sort_key_bytes u < sort_key_bytes v) (concat (map (lang_list A s) Ls))"
  using assms
proof (induction Ls)
  case Nil
  show ?case by simp
next
  case (Cons L Ls)
  have "sorted_wrt (\<lambda>u v. sort_key_bytes u < sort_key_bytes v) (lang_list A s L)"
    by (rule sorted_wrt_mono_rel [OF _ lang_list_sorted])
      (simp add: sort_key_bytes_def set_lang_list)
  moreover have "sorted_wrt (\<lambda>u v. sort_key_bytes u < sort_key_bytes v)
      (concat (map (lang_list A s) Ls))"
    using Cons by simp
  moreover have "\<forall>u \<in> set (lang_list A s L). \<forall>v \<in> set (concat (map (lang_list A s) Ls)).
      sort_key_bytes u < sort_key_bytes v"
    using Cons.prems by (auto simp: sort_key_bytes_def set_lang_list)
  ultimately show ?case by (simp add: sorted_wrt_append)
qed

lemma all_matching_strings_sorted:
  "sorted_wrt (\<lambda>u v. sort_key_bytes u < sort_key_bytes v) (all_matching_strings A n)"
proof -
  have "sorted_wrt (<) (filter (\<lambda>L. enat L \<le> max_length A (Some (start A))) [0..<n])"
    by (intro sorted_wrt_filter) simp
  then show ?thesis
    unfolding all_matching_strings_def strings_of_length_lang [abs_def]
    by (rule lang_lists_shortlex)
qed

lemma all_matching_strings_set:
  "set (all_matching_strings A n) = {w. matches A w \<and> length w < n}"
proof (intro set_eqI iffI)
  fix w assume "w \<in> set (all_matching_strings A n)"
  then obtain L where "L < n" and "w \<in> set (lang_list A (Some (start A)) L)"
    by (auto simp: all_matching_strings_def strings_of_length_lang)
  then show "w \<in> {w. matches A w \<and> length w < n}"
    by (simp add: set_lang_list matches_accepts)
next
  fix w assume "w \<in> {w. matches A w \<and> length w < n}"
  then have acc: "accepts_from A (Some (start A)) w" and len: "length w < n"
    by (simp_all add: matches_accepts)
  from acc have "enat (length w) \<le> max_length A (Some (start A))"
    by (rule accepted_within_max_length)
  moreover from acc have "w \<in> set (lang_list A (Some (start A)) (length w))"
    by (simp add: set_lang_list)
  ultimately show "w \<in> set (all_matching_strings A n)"
    using len by (auto simp: all_matching_strings_def strings_of_length_lang)
qed

lemma shortlex_sorted_unique:
  assumes "sorted_wrt (\<lambda>u v. sort_key_bytes u < sort_key_bytes v) xs"
    and "sorted_wrt (\<lambda>u v. sort_key_bytes u < sort_key_bytes v) ys"
    and "set xs = set ys"
  shows "xs = ys"
proof -
  from assms(1,2) have "sorted_wrt (<) (map sort_key_bytes xs)" "sorted_wrt (<) (map sort_key_bytes ys)"
    by (simp_all add: sorted_wrt_map)
  moreover from assms(3) have "set (map sort_key_bytes xs) = set (map sort_key_bytes ys)" by simp
  ultimately have "map sort_key_bytes xs = map sort_key_bytes ys"
    by (metis strict_sorted_equal)
  then have "map snd (map sort_key_bytes xs) = map snd (map sort_key_bytes ys)" by simp
  then show ?thesis by (simp add: sort_key_bytes_def comp_def)
qed

lemma example_transition:
  "transition example_dfa (Some 0) b = (if b = 0 then Some 1 else if b = 1 then Some 2 else None)"
  "transition example_dfa (Some (Suc 0)) b = None"
  "transition example_dfa (Some 2) b = (if b = 1 then Some 3 else None)"
  "transition example_dfa (Some 3) b = None"
  by (simp_all add: transition_def example_dfa_def)

lemma example_accepting:
  "is_accepting example_dfa (Some 0) = False" "is_accepting example_dfa (Some (Suc 0)) = True"
  "is_accepting example_dfa (Some 2) = False" "is_accepting example_dfa (Some 3) = True"
  by (simp_all add: is_accepting_def example_dfa_def)

lemma example_accepts:
  "accepts_from example_dfa (Some (Suc 0)) w \<longleftrightarrow> w = []"
  "accepts_from example_dfa (Some 3) w \<longleftrightarrow> w = []"
  by (cases w; simp add: example_transition example_accepting)+

lemma example_accepts2: "accepts_from example_dfa (Some 2) w \<longleftrightarrow> w = [1]"
  by (cases w) (auto simp: example_transition example_accepting example_accepts)

lemma example_language: "matches example_dfa w \<longleftrightarrow> w = [0] \<or> w = [1, 1]"
proof -
  have "start example_dfa = 0" by (simp add: example_dfa_def)
  then show ?thesis
    unfolding matches_accepts
    by (cases w) (auto simp: example_transition example_accepting example_accepts example_accepts2)
qed

text \<open>
  C6. What \<open>all_matching_strings\<close> has produced once the lengths below \<open>n\<close> are done is in
  strictly ascending shortlex order (by length, then bytewise) and consists of exactly
  the strings of length below \<open>n\<close> that the automaton matches; for the automaton of the
  example scenario it is \<open>[b"\x00", b"\x01\x01"]\<close> from \<open>n = 3\<close> on, however far the sequence
  is run.
\<close>

theorem all_matching_strings_shortlex:
  "sorted_wrt (\<lambda>u v. sort_key_bytes u < sort_key_bytes v) (all_matching_strings A n)
   \<and> set (all_matching_strings A n) = {w. matches A w \<and> length w < n}
   \<and> (3 \<le> n \<longrightarrow> all_matching_strings example_dfa n = [[0], [1, 1]])"
proof -
  have "all_matching_strings example_dfa n = [[0], [1, 1]]" if "3 \<le> n"
  proof (rule shortlex_sorted_unique [OF all_matching_strings_sorted])
    show "sorted_wrt (\<lambda>u v. sort_key_bytes u < sort_key_bytes v) [[0], [1, 1]]"
      by (simp add: sort_key_bytes_def)
    show "set (all_matching_strings example_dfa n) = set [[0], [1, 1]]"
      using that by (auto simp: all_matching_strings_set example_language)
  qed
  then show ?thesis
    using all_matching_strings_sorted all_matching_strings_set by blast
qed

theorem all_matching_strings_witness:
  "(3::nat) \<le> 3 \<and> all_matching_strings example_dfa 3 = [[0], [1, 1]]"
proof -
  have "(3::nat) \<le> 3" by simp
  with all_matching_strings_shortlex [of example_dfa 3] show ?thesis by blast
qed

section \<open>Counting the longest strings\<close>

lemma fold_max_zero:
  assumes "\<forall>x \<in> set xs. x = (0 :: enat)"
  shows "fold max xs 0 = 0"
  using fold_max_mem [of xs 0] assms by auto

lemma fold_max_eq:
  assumes "x \<in> set xs" and "\<forall>y \<in> set xs. y \<le> x"
  shows "fold max xs (0 :: enat) = x"
proof (rule antisym)
  from fold_max_mem [of xs 0] assms(2) show "fold max xs 0 \<le> x" by auto
  from assms(1) show "x \<le> fold max xs 0" by (rule fold_max_upper)
qed

text \<open>
  C2, amended by the start state not being dead. When \<open>max_length\<close> of the start state
  is a number \<open>m\<close>: if the start state is not dead, some string of length \<open>m\<close> is counted,
  and in any case no string of length \<open>m + 1\<close> is.
\<close>

theorem longest_string_counted:
  assumes "max_length A (Some (start A)) = enat m"
  shows "(\<not> is_dead A (Some (start A)) \<longrightarrow> 0 < count_strings A (Some (start A)) m)
       \<and> count_strings A (Some (start A)) (m + 1) = 0"
proof -
  from assms have fin: "max_length_from A [] (start A) = enat m"
    by (simp add: max_length_def)
  note char = max_length_from_finite [OF fin]
  have "0 < count_strings A (Some (start A)) m" if "\<not> is_dead A (Some (start A))"
  proof -
    from that have "alive A (start A)" by (simp add: is_dead_def live_iff)
    with char obtain w where "accepts_from A (Some (start A)) w" "length w = m" by blast
    then have "w \<in> set (lang_list A (Some (start A)) m)" by (simp add: set_lang_list)
    then show ?thesis unfolding count_strings_length by (cases "lang_list A (Some (start A)) m") auto
  qed
  moreover have "count_strings A (Some (start A)) (m + 1) = 0"
  proof -
    have "set (lang_list A (Some (start A)) (m + 1)) = {}"
      unfolding set_lang_list using char by fastforce
    then show ?thesis unfolding count_strings_length by simp
  qed
  ultimately show ?thesis by blast
qed

lemma dead_start_transition: "transition dead_start_dfa (Some q) b = None"
  by (auto simp: transition_def dead_start_dfa_def nth_Cons' )

text \<open>
  C2 as stated fails when the start state is dead: \<open>max_length\<close> is finite and no string
  of any length is counted. The automaton has two states without transitions, starts in
  the first and accepts in the second.
\<close>

theorem dead_start_has_no_longest_string:
  "max_length dead_start_dfa (Some (start dead_start_dfa)) = enat 0
   \<and> count_strings dead_start_dfa (Some (start dead_start_dfa)) 0 = 0"
proof -
  have "max_length_from dead_start_dfa [] 0 = fold max (map (step_length dead_start_dfa [] 0) byte_values) 0"
    by (rule max_length_from_unfold) (simp_all add: dead_start_dfa_def)
  also have "\<dots> = 0"
    by (rule fold_max_zero) (simp add: step_length_def dead_start_transition)
  finally have "max_length dead_start_dfa (Some (start dead_start_dfa)) = enat 0"
    by (simp add: max_length_def dead_start_dfa_def zero_enat_def)
  moreover have "count_strings dead_start_dfa (Some (start dead_start_dfa)) 0 = 0"
    by (simp add: is_accepting_def dead_start_dfa_def)
  ultimately show ?thesis by blast
qed

text \<open>The example automaton: its longest string has length 2.\<close>

lemma example_not_dead:
  "\<not> is_dead example_dfa (Some 0)" "\<not> is_dead example_dfa (Some (Suc 0))"
  "\<not> is_dead example_dfa (Some 2)" "\<not> is_dead example_dfa (Some 3)"
proof -
  have "start example_dfa = 0" by (simp add: example_dfa_def)
  with example_language [of "[0]"] have "accepts_from example_dfa (Some 0) [0]"
    by (simp only: matches_accepts) simp
  then show "\<not> is_dead example_dfa (Some 0)" unfolding is_dead_iff by blast
  show "\<not> is_dead example_dfa (Some (Suc 0))" "\<not> is_dead example_dfa (Some 3)"
    "\<not> is_dead example_dfa (Some 2)"
    unfolding is_dead_iff example_accepts example_accepts2 by simp_all
qed

lemma example_max_length_leaf:
  "Suc 0 \<notin> set V \<Longrightarrow> max_length_from example_dfa V (Suc 0) = 0"
  "3 \<notin> set V \<Longrightarrow> max_length_from example_dfa V 3 = 0"
proof -
  assume "Suc 0 \<notin> set V"
  then have "max_length_from example_dfa V (Suc 0)
      = fold max (map (step_length example_dfa V (Suc 0)) byte_values) 0"
    by (intro max_length_from_unfold) (simp_all add: example_dfa_def)
  also have "\<dots> = 0"
    by (rule fold_max_zero) (simp add: step_length_def example_transition)
  finally show "max_length_from example_dfa V (Suc 0) = 0" .
next
  assume "3 \<notin> set V"
  then have "max_length_from example_dfa V 3
      = fold max (map (step_length example_dfa V 3) byte_values) 0"
    by (intro max_length_from_unfold) (simp_all add: example_dfa_def)
  also have "\<dots> = 0"
    by (rule fold_max_zero) (simp add: step_length_def example_transition)
  finally show "max_length_from example_dfa V 3 = 0" .
qed

lemma example_max_length_2:
  assumes "2 \<notin> set V" and "3 \<notin> set V"
  shows "max_length_from example_dfa V 2 = 1"
proof -
  from assms(1) have "max_length_from example_dfa V 2
      = fold max (map (step_length example_dfa V 2) byte_values) 0"
    by (intro max_length_from_unfold) (simp_all add: example_dfa_def)
  also have "\<dots> = step_length example_dfa V 2 1"
  proof (rule fold_max_eq)
    show "step_length example_dfa V 2 1 \<in> set (map (step_length example_dfa V 2) byte_values)"
      by (simp add: byte_values_iff image_iff) (rule bexI [of _ 1], simp_all add: byte_values_iff)
    show "\<forall>y \<in> set (map (step_length example_dfa V 2) byte_values). y \<le> step_length example_dfa V 2 1"
      using assms by (auto simp: step_length_def example_transition example_not_dead example_max_length_leaf)
  qed
  also have "\<dots> = 1"
    using assms by (simp add: step_length_def example_transition example_not_dead example_max_length_leaf)
  finally show ?thesis .
qed

lemma example_max_length: "max_length example_dfa (Some (start example_dfa)) = enat 2"
proof -
  have "max_length_from example_dfa [] 0
      = fold max (map (step_length example_dfa [] 0) byte_values) 0"
    by (intro max_length_from_unfold) (simp_all add: example_dfa_def)
  also have "\<dots> = step_length example_dfa [] 0 1"
  proof (rule fold_max_eq)
    show "step_length example_dfa [] 0 1 \<in> set (map (step_length example_dfa [] 0) byte_values)"
      by (simp add: byte_values_iff image_iff) (rule bexI [of _ 1], simp_all add: byte_values_iff)
    show "\<forall>y \<in> set (map (step_length example_dfa [] 0) byte_values). y \<le> step_length example_dfa [] 0 1"
      by (auto simp: step_length_def example_transition example_not_dead
          example_max_length_leaf example_max_length_2 one_enat_def zero_enat_def)
  qed
  also have "\<dots> = enat 2"
    by (simp add: step_length_def example_transition example_not_dead example_max_length_2
        one_enat_def)
  finally show ?thesis by (simp add: max_length_def example_dfa_def)
qed

theorem longest_string_counted_witness:
  "max_length example_dfa (Some (start example_dfa)) = enat 2
   \<and> \<not> is_dead example_dfa (Some (start example_dfa))
   \<and> 0 < count_strings example_dfa (Some (start example_dfa)) 2
   \<and> count_strings example_dfa (Some (start example_dfa)) (2 + 1) = 0"
proof -
  have "\<not> is_dead example_dfa (Some (start example_dfa))"
    using example_not_dead(1) by (simp add: example_dfa_def)
  with longest_string_counted [OF example_max_length] example_max_length
  show ?thesis by blast
qed

section \<open>Strings of a fixed length\<close>






















section \<open>The canonical form\<close>

lemma universe_None: "None \<in> set (universe A)"
  by (simp add: universe_def)

lemma universe_Some: "Some q \<in> set (universe A) \<longleftrightarrow> q < length (tables A)"
  by (auto simp: universe_def)

lemma transition_universe: "transition A s b \<in> set (universe A)"
proof (cases "transition A s b")
  case None
  then show ?thesis by (simp add: universe_None)
next
  case (Some t)
  from transition_Some [OF Some] Some show ?thesis by (simp add: universe_Some)
qed

lemma refine_fixpoint: "refine_step A (refine A R) = refine A R"
proof (induction A R rule: refine.induct)
  case (1 A R)
  then show ?case
    by (cases "refine_step A R = R") (simp_all add: refine.simps [of A R])
qed

lemma refine_subset: "set (refine A R) \<subseteq> set R"
proof (induction A R rule: refine.induct)
  case (1 A R)
  show ?case
  proof (cases "refine_step A R = R")
    case True
    then show ?thesis by (simp add: refine.simps [of A R])
  next
    case False
    have "set (refine_step A R) \<subseteq> set R" by (auto simp: refine_step_def)
    with "1.IH" [OF False] False show ?thesis by (auto simp: refine.simps [of A R])
  qed
qed

lemma nerode_step: "nerode A p q \<Longrightarrow> nerode A (transition A p b) (transition A q b)"
  unfolding nerode_def
proof
  fix w assume "\<forall>w. accepts_from A p w = accepts_from A q w"
  then have "accepts_from A p (b # w) = accepts_from A q (b # w)" by blast
  then show "accepts_from A (transition A p b) w = accepts_from A (transition A q b) w" by simp
qed

lemma refine_keeps_nerode:
  assumes "\<forall>p q. (p, q) \<in> set R0 \<and> nerode A p q \<longrightarrow> (p, q) \<in> set R"
    and "\<forall>p q. nerode A p q \<and> p \<in> set (universe A) \<and> q \<in> set (universe A) \<longrightarrow> (p, q) \<in> set R0"
  shows "\<forall>p q. (p, q) \<in> set R0 \<and> nerode A p q \<longrightarrow> (p, q) \<in> set (refine A R)"
  using assms
proof (induction A R rule: refine.induct)
  case (1 A R)
  note keeps = "1.prems"(1) and init = "1.prems"(2)
  show ?case
  proof (cases "refine_step A R = R")
    case True
    with keeps show ?thesis by (simp add: refine.simps [of A R])
  next
    case False
    have "\<forall>p q. (p, q) \<in> set R0 \<and> nerode A p q \<longrightarrow> (p, q) \<in> set (refine_step A R)"
    proof (intro allI impI)
      fix p q assume pq: "(p, q) \<in> set R0 \<and> nerode A p q"
      have "(transition A p b, transition A q b) \<in> set R" for b
      proof -
        from pq have n: "nerode A (transition A p b) (transition A q b)" by (simp add: nerode_step)
        have "transition A p b \<in> set (universe A)" "transition A q b \<in> set (universe A)"
          by (rule transition_universe)+
        with n init have "(transition A p b, transition A q b) \<in> set R0" by blast
        with n keeps show ?thesis by blast
      qed
      moreover from pq keeps have "(p, q) \<in> set R" by blast
      ultimately show "(p, q) \<in> set (refine_step A R)"
        by (simp add: refine_step_def)
    qed
    from "1.IH" [OF False this init] False show ?thesis by (simp add: refine.simps [of A R])
  qed
qed

lemma same_language_iff:
  "(p, q) \<in> set (same_language A)
     \<longleftrightarrow> p \<in> set (universe A) \<and> q \<in> set (universe A) \<and> nerode A p q"
proof
  assume in_R: "(p, q) \<in> set (same_language A)"
  have sub: "set (same_language A) \<subseteq> set (initial_partition A)"
    unfolding same_language_def by (rule refine_subset)
  have fix1: "refine_step A (same_language A) = same_language A"
    unfolding same_language_def by (rule refine_fixpoint)
  have agree: "(p, q) \<in> set (same_language A) \<Longrightarrow> accepts_from A p w = accepts_from A q w" for p q w
  proof (induction w arbitrary: p q)
    case Nil
    with sub have "(p, q) \<in> set (initial_partition A)" by blast
    then show ?case by (simp add: initial_partition_def)
  next
    case (Cons b w)
    show ?case
    proof (cases "b \<in> set byte_values")
      case True
      from Cons.prems fix1 have "(p, q) \<in> set (refine_step A (same_language A))" by simp
      with True have "(transition A p b, transition A q b) \<in> set (same_language A)"
        by (auto simp: refine_step_def)
      with Cons.IH show ?thesis by simp
    next
      case False
      then have "transition A p b = None" "transition A q b = None"
        by (auto simp: transition_def byte_values_iff split: option.splits)
      then show ?thesis by simp
    qed
  qed
  from in_R sub have "p \<in> set (universe A) \<and> q \<in> set (universe A)"
    by (auto simp: initial_partition_def)
  with agree [OF in_R] show "p \<in> set (universe A) \<and> q \<in> set (universe A) \<and> nerode A p q"
    by (simp add: nerode_def)
next
  assume a: "p \<in> set (universe A) \<and> q \<in> set (universe A) \<and> nerode A p q"
  have init: "\<forall>p q. nerode A p q \<and> p \<in> set (universe A) \<and> q \<in> set (universe A)
      \<longrightarrow> (p, q) \<in> set (initial_partition A)"
  proof (intro allI impI)
    fix p q assume "nerode A p q \<and> p \<in> set (universe A) \<and> q \<in> set (universe A)"
    moreover from this have "accepts_from A p [] = accepts_from A q []"
      unfolding nerode_def by blast
    ultimately show "(p, q) \<in> set (initial_partition A)"
      by (simp add: initial_partition_def)
  qed
  have "\<forall>p q. (p, q) \<in> set (initial_partition A) \<and> nerode A p q
      \<longrightarrow> (p, q) \<in> set (refine A (initial_partition A))"
  proof (rule refine_keeps_nerode)
    show "\<forall>p q. (p, q) \<in> set (initial_partition A) \<and> nerode A p q
      \<longrightarrow> (p, q) \<in> set (initial_partition A)" by blast
    show "\<forall>p q. nerode A p q \<and> p \<in> set (universe A) \<and> q \<in> set (universe A)
      \<longrightarrow> (p, q) \<in> set (initial_partition A)" by (rule init)
  qed
  with a init show "(p, q) \<in> set (same_language A)"
    unfolding same_language_def by blast
qed

lemma same_class_iff:
  "same_class A p q \<longleftrightarrow> p < length (tables A) \<and> q < length (tables A) \<and> nerode A (Some p) (Some q)"
  by (simp add: same_class_def same_language_iff universe_Some)

lemma same_class_refl: "t < length (tables A) \<Longrightarrow> same_class A t t"
  by (simp add: same_class_iff nerode_def)

lemma same_class_sym: "same_class A p q \<Longrightarrow> same_class A q p"
  by (simp add: same_class_iff nerode_def)

lemma same_class_trans: "same_class A p q \<Longrightarrow> same_class A q r \<Longrightarrow> same_class A p r"
  by (simp add: same_class_iff nerode_def)

lemma same_class_accepts: "same_class A p q \<Longrightarrow> accepts_from A (Some p) w = accepts_from A (Some q) w"
  by (simp add: same_class_iff nerode_def)

lemma same_class_range: "same_class A p q \<Longrightarrow> p < length (tables A) \<and> q < length (tables A)"
  by (simp add: same_class_iff)

lemma alive_range: "alive A q \<Longrightarrow> q < length (tables A)"
proof -
  assume "alive A q"
  then obtain w where w: "accepts_from A (Some q) w" unfolding alive_def by blast
  show ?thesis
  proof (cases w)
    case Nil
    with w show ?thesis by (simp add: is_accepting_def)
  next
    case (Cons b v)
    with w obtain t where "transition A (Some q) b = Some t"
      by (cases "transition A (Some q) b") auto
    from transition_Some [OF this] show ?thesis by auto
  qed
qed

lemma same_class_alive: "same_class A p q \<Longrightarrow> alive A p \<Longrightarrow> alive A q"
  unfolding alive_def using same_class_accepts by blast

lemma live_target_Some:
  "live_target A q b = Some t \<longleftrightarrow> transition A (Some q) b = Some t \<and> alive A t"
  by (cases "transition A (Some q) b") (auto simp: live_target_def is_dead_iff alive_def)

lemma live_target_None:
  "live_target A q b = None \<longleftrightarrow> (\<forall>w. \<not> accepts_from A (transition A (Some q) b) w)"
  by (cases "transition A (Some q) b") (auto simp: live_target_def is_dead_iff)

lemma live_target_byte: "live_target A q b = Some t \<Longrightarrow> b \<in> set byte_values"
  using transition_Some [of A "Some q" b t] by (simp add: live_target_Some byte_values_iff)

lemma live_target_equiv:
  assumes "same_class A p q" and "live_target A q b = Some t"
  shows "\<exists>t'. live_target A p b = Some t' \<and> same_class A t' t"
proof -
  from assms(2) have t: "transition A (Some q) b = Some t" and al: "alive A t"
    by (simp_all add: live_target_Some)
  from assms(1) have n: "nerode A (Some p) (Some q)" by (simp add: same_class_iff)
  from nerode_step [OF n, of b] t
  have n': "nerode A (transition A (Some p) b) (Some t)" by simp
  from al obtain w where "accepts_from A (Some t) w" unfolding alive_def by blast
  with n' have acc: "accepts_from A (transition A (Some p) b) w" unfolding nerode_def by simp
  then obtain t' where t': "transition A (Some p) b = Some t'"
    by (cases "transition A (Some p) b") auto
  with acc have "alive A t'" unfolding alive_def by auto
  with t' have "live_target A p b = Some t'" by (simp add: live_target_Some)
  moreover from n' t' transition_Some [OF t'] transition_Some [OF t]
  have "same_class A t' t" by (simp add: same_class_iff)
  ultimately show ?thesis by blast
qed

lemma live_target_equiv_None:
  assumes "same_class A p q" and "live_target A q b = None"
  shows "live_target A p b = None"
proof (cases "live_target A p b")
  case None
  then show ?thesis .
next
  case (Some t)
  from live_target_equiv [OF same_class_sym [OF assms(1)] Some] assms(2) show ?thesis by auto
qed

lemma class_index_found:
  assumes "\<exists>r \<in> set order. same_class A r t"
  shows "class_index A order t < length order \<and> same_class A (order ! class_index A order t) t"
proof -
  let ?P = "\<lambda>r. \<not> same_class A r t"
  have le: "length (takeWhile ?P order) \<le> length order" by (rule length_takeWhile_le)
  have "length (takeWhile ?P order) \<noteq> length order"
  proof
    assume "length (takeWhile ?P order) = length order"
    then have "takeWhile ?P order = order"
      by (metis takeWhile_eq_take take_all order_refl)
    then have "\<forall>r \<in> set order. ?P r" by (simp add: takeWhile_eq_all_conv)
    with assms show False by blast
  qed
  with le have lt: "length (takeWhile ?P order) < length order" by simp
  from nth_length_takeWhile [OF lt] lt show ?thesis by (simp add: class_index_def)
qed

lemma class_index_first:
  "j < class_index A order t \<Longrightarrow> \<not> same_class A (order ! j) t"
  unfolding class_index_def
  using takeWhile_nth [of j "\<lambda>r. \<not> same_class A r t" order] nth_mem [of j "takeWhile (\<lambda>r. \<not> same_class A r t) order"]
    set_takeWhileD [of "order ! j" "\<lambda>r. \<not> same_class A r t" order]
  by auto

lemma covered_mono: "covered A vis q \<Longrightarrow> set vis \<subseteq> set vis' \<Longrightarrow> covered A vis' q"
  unfolding covered_def by blast

lemma good_append:
  assumes g: "good A vis" and al: "alive A t" and new: "\<not> (\<exists>r \<in> set vis. same_class A r t)"
  shows "good A (vis @ [t])"
proof -
  have "i = j" if ij: "i < length (vis @ [t])" "j < length (vis @ [t])"
    and e: "same_class A ((vis @ [t]) ! i) ((vis @ [t]) ! j)" for i j
  proof (cases "i < length vis")
    case True
    note i = True
    show ?thesis
    proof (cases "j < length vis")
      case True
      with i e have "same_class A (vis ! i) (vis ! j)" by (simp add: nth_append)
      with g i True show ?thesis unfolding good_def by blast
    next
      case False
      with ij have "j = length vis" by simp
      with i e have "same_class A (vis ! i) t" by (simp add: nth_append)
      with new i show ?thesis using nth_mem by blast
    qed
  next
    case False
    with ij have i: "i = length vis" by simp
    show ?thesis
    proof (cases "j < length vis")
      case True
      with i e have "same_class A t (vis ! j)" by (simp add: nth_append)
      then have "same_class A (vis ! j) t" by (rule same_class_sym)
      with new True show ?thesis using nth_mem by blast
    next
      case False
      with ij i show ?thesis by simp
    qed
  qed
  moreover from g al have "\<forall>r \<in> set (vis @ [t]). alive A r" unfolding good_def by simp
  ultimately show ?thesis unfolding good_def by blast
qed

lemma discover_step_cases:
  "discover_step A q b vis = vis
   \<or> (\<exists>t. live_target A q b = Some t \<and> \<not> (\<exists>r \<in> set vis. same_class A r t)
          \<and> discover_step A q b vis = vis @ [t])"
  by (cases "live_target A q b") (simp_all add: discover_step_def)

lemma discover_step_prefix: "\<exists>ys. discover_step A q b vis = vis @ ys"
  using discover_step_cases [of A q b vis] by auto

lemma discover_step_good: "good A vis \<Longrightarrow> good A (discover_step A q b vis)"
  using discover_step_cases [of A q b vis] good_append [of A vis]
  by (auto simp: live_target_Some)

lemma discover_step_covers:
  assumes "live_target A q b = Some t"
  shows "\<exists>r \<in> set (discover_step A q b vis). same_class A r t"
proof (cases "\<exists>r \<in> set vis. same_class A r t")
  case True
  with assms show ?thesis by (simp add: discover_step_def)
next
  case False
  from assms have "alive A t" by (simp add: live_target_Some)
  then have "same_class A t t" by (intro same_class_refl alive_range)
  with False assms show ?thesis by (simp add: discover_step_def)
qed

lemma fold_discover_prefix: "\<exists>ys. fold (discover_step A q) bs vis = vis @ ys"
proof (induction bs arbitrary: vis)
  case Nil
  show ?case by simp
next
  case (Cons b bs)
  from discover_step_prefix obtain ys where ys: "discover_step A q b vis = vis @ ys" by blast
  from Cons [of "discover_step A q b vis"] obtain zs
    where "fold (discover_step A q) bs (discover_step A q b vis) = discover_step A q b vis @ zs"
    by blast
  with ys show ?case by simp
qed

lemma fold_discover_good: "good A vis \<Longrightarrow> good A (fold (discover_step A q) bs vis)"
  by (induction bs arbitrary: vis) (simp_all add: discover_step_good)

lemma fold_discover_covers:
  "b \<in> set bs \<Longrightarrow> live_target A q b = Some t
     \<Longrightarrow> \<exists>r \<in> set (fold (discover_step A q) bs vis). same_class A r t"
proof (induction bs arbitrary: vis)
  case Nil
  then show ?case by simp
next
  case (Cons a bs)
  show ?case
  proof (cases "a = b")
    case True
    from discover_step_covers [OF Cons.prems(2), of vis] obtain r
      where r: "r \<in> set (discover_step A q b vis)" "same_class A r t" by blast
    from fold_discover_prefix [of A q bs "discover_step A q b vis"] obtain ys
      where "fold (discover_step A q) bs (discover_step A q b vis) = discover_step A q b vis @ ys"
      by blast
    with r True show ?thesis by auto
  next
    case False
    with Cons.prems have "b \<in> set bs" by simp
    from Cons.IH [OF this Cons.prems(2)] show ?thesis by simp
  qed
qed

lemma discover_prefix: "\<exists>ys. discover A vis q = vis @ ys"
  unfolding discover_def by (rule fold_discover_prefix)

lemma discover_good: "good A vis \<Longrightarrow> good A (discover A vis q)"
  unfolding discover_def by (rule fold_discover_good)

lemma discover_covered: "covered A (discover A vis q) q"
  unfolding covered_def discover_def
  using fold_discover_covers live_target_byte by blast

lemma explore_prefix: "\<exists>ys. explore A f vis i = vis @ ys"
proof (induction f arbitrary: vis i)
  case 0
  show ?case by simp
next
  case (Suc f)
  show ?case
  proof (cases "i < length vis")
    case True
    from discover_prefix obtain ys where ys: "discover A vis (vis ! i) = vis @ ys" by blast
    from Suc [of "discover A vis (vis ! i)" "i + 1"] obtain zs
      where "explore A f (discover A vis (vis ! i)) (i + 1) = discover A vis (vis ! i) @ zs"
      by blast
    with ys True show ?thesis by simp
  next
    case False
    then show ?thesis by simp
  qed
qed

lemma explore_good: "good A vis \<Longrightarrow> good A (explore A f vis i)"
  by (induction f arbitrary: vis i) (simp_all add: discover_good)

lemma explore_closed:
  assumes "\<forall>k<i. k < length vis \<longrightarrow> covered A vis (vis ! k)"
    and "length (explore A f vis i) \<le> i + f"
  shows "\<forall>k < length (explore A f vis i). covered A (explore A f vis i) (explore A f vis i ! k)"
  using assms
proof (induction f arbitrary: vis i)
  case 0
  then show ?case by simp
next
  case (Suc f)
  show ?case
  proof (cases "i < length vis")
    case True
    let ?vis = "discover A vis (vis ! i)"
    from discover_prefix obtain ys where ys: "?vis = vis @ ys" by blast
    have "\<forall>k<i + 1. k < length ?vis \<longrightarrow> covered A ?vis (?vis ! k)"
    proof (intro allI impI)
      fix k assume k: "k < i + 1" "k < length ?vis"
      show "covered A ?vis (?vis ! k)"
      proof (cases "k = i")
        case True
        with \<open>i < length vis\<close> ys have "?vis ! k = vis ! i" by (simp add: nth_append)
        with discover_covered [of A vis "vis ! i"] show ?thesis by simp
      next
        case False
        with k have ki: "k < i" by simp
        with True Suc.prems(1) have "covered A vis (vis ! k)" by simp
        moreover from ki True ys have "?vis ! k = vis ! k" by (simp add: nth_append)
        moreover from ys have "set vis \<subseteq> set ?vis" by simp
        ultimately show ?thesis using covered_mono by metis
      qed
    qed
    moreover from Suc.prems(2) True have "length (explore A f ?vis (i + 1)) \<le> (i + 1) + f"
      by simp
    ultimately have "\<forall>k < length (explore A f ?vis (i + 1)).
        covered A (explore A f ?vis (i + 1)) (explore A f ?vis (i + 1) ! k)"
      by (rule Suc.IH)
    with True show ?thesis by simp
  next
    case False
    with Suc.prems(1) show ?thesis by simp
  qed
qed

lemma good_distinct: "good A vis \<Longrightarrow> distinct vis"
proof -
  assume g: "good A vis"
  have "i = j" if "i < length vis" "j < length vis" "vis ! i = vis ! j" for i j
  proof -
    from g that(1) have "alive A (vis ! i)" unfolding good_def by simp
    then have "same_class A (vis ! i) (vis ! i)" by (intro same_class_refl alive_range)
    with that have "same_class A (vis ! i) (vis ! j)" by simp
    with g that show ?thesis unfolding good_def by blast
  qed
  then show ?thesis by (simp add: distinct_conv_nth) blast
qed

lemma good_length: "good A vis \<Longrightarrow> length vis \<le> length (tables A)"
proof -
  assume g: "good A vis"
  then have d: "distinct vis" by (rule good_distinct)
  from g have "set vis \<subseteq> {0..<length (tables A)}"
    unfolding good_def using alive_range by auto
  then have "card (set vis) \<le> card {0..<length (tables A)}"
    by (intro card_mono) simp_all
  with d show ?thesis by (simp add: distinct_card)
qed

lemma explore_fuel:
  "f' \<le> f \<Longrightarrow> length (explore A f vis i) \<le> i + f' \<Longrightarrow> explore A f' vis i = explore A f vis i"
proof (induction f' arbitrary: f vis i)
  case 0
  from explore_prefix [of A f vis i] obtain ys where ys: "explore A f vis i = vis @ ys" by blast
  with 0 have "\<not> i < length vis" by simp
  then have "explore A f vis i = vis" by (cases f) simp_all
  then show ?case by simp
next
  case (Suc g)
  then obtain f2 where f: "f = Suc f2" by (cases f) simp_all
  show ?case
  proof (cases "i < length vis")
    case True
    from Suc.prems f True
    have "explore A g (discover A vis (vis ! i)) (i + 1) = explore A f2 (discover A vis (vis ! i)) (i + 1)"
      by (intro Suc.IH) simp_all
    with f True show ?thesis by simp
  next
    case False
    with f show ?thesis by simp
  qed
qed

lemma traversal_props:
  assumes "\<not> is_dead A (Some (start A))"
  shows "traversal A \<noteq> []" and "traversal A ! 0 = start A" and "good A (traversal A)"
    and "\<forall>k < length (traversal A). covered A (traversal A) (traversal A ! k)"
    and "length (traversal A) \<le> length (tables A)"
proof -
  let ?n = "length (tables A)"
  have tr: "traversal A = explore A ?n [start A] 0" using assms by (simp add: traversal_def)
  from explore_prefix [of A ?n "[start A]" 0] obtain ys
    where ys: "explore A ?n [start A] 0 = [start A] @ ys" by blast
  from tr ys show "traversal A \<noteq> []" and "traversal A ! 0 = start A" by simp_all
  from assms have al: "alive A (start A)" by (simp add: is_dead_iff alive_def)
  then have "good A [start A]" by (simp add: good_def)
  then have g: "good A (explore A ?n [start A] 0)" by (rule explore_good)
  with tr show "good A (traversal A)" by simp
  from g have len: "length (explore A ?n [start A] 0) \<le> ?n" by (rule good_length)
  with tr show "length (traversal A) \<le> length (tables A)" by simp
  have "\<forall>k < length (explore A ?n [start A] 0).
      covered A (explore A ?n [start A] 0) (explore A ?n [start A] 0 ! k)"
    by (rule explore_closed) (use len in simp_all)
  with tr show "\<forall>k < length (traversal A). covered A (traversal A) (traversal A ! k)" by simp
qed

lemma map_of_rows:
  "map_of (concat (map (\<lambda>b. case f b of None \<Rightarrow> [] | Some t \<Rightarrow> [(b, g t)]) bs)) b
     = (if b \<in> set bs then map_option g (f b) else None)"
proof (induction bs)
  case Nil
  show ?case by simp
next
  case (Cons a bs)
  show ?case
  proof (cases "f a")
    case None
    with Cons show ?thesis by auto
  next
    case (Some t)
    with Cons show ?thesis by auto
  qed
qed

lemma canonicalise_dead:
  "is_dead A (Some (start A)) \<Longrightarrow> canonicalise A = \<lparr>tables = [Dense []], start = 0, accepting = {}\<rparr>"
  by (simp add: canonicalise_def traversal_def)

lemma canonicalise_live:
  assumes "\<not> is_dead A (Some (start A))"
  shows "canonicalise A =
     \<lparr>tables = map (\<lambda>q. Dense (row A (traversal A) q)) (traversal A),
      start = 0,
      accepting = set (filter (\<lambda>i. traversal A ! i \<in> accepting A) [0..<length (traversal A)])\<rparr>"
  using traversal_props(1) [OF assms] by (simp add: canonicalise_def Let_def)

lemma transition_canonical:
  assumes live: "\<not> is_dead A (Some (start A))" and j: "j < length (traversal A)"
  shows "transition (canonicalise A) (Some j) b
     = map_option (class_index A (traversal A)) (live_target A (traversal A ! j) b)"
proof -
  let ?order = "traversal A"
  let ?B = "canonicalise A"
  have len: "length (tables ?B) = length ?order"
    by (simp add: canonicalise_live [OF live])
  have tab: "tables ?B ! j = Dense (row A ?order (?order ! j))"
    using j by (simp add: canonicalise_live [OF live])
  show ?thesis
  proof (cases "live_target A (?order ! j) b")
    case None
    have "lookup (tables ?B ! j) b = None"
      unfolding tab by (simp add: row_def map_of_rows None)
    with None show ?thesis by (simp add: transition_def)
  next
    case (Some t)
    from live_target_byte [OF Some] have b: "b \<in> set byte_values" .
    then have b256: "b < 256" by (simp add: byte_values_iff)
    have look: "lookup (tables ?B ! j) b = Some (class_index A ?order t)"
      unfolding tab using b by (simp add: row_def map_of_rows Some)
    from traversal_props(4) [OF live] j have "covered A ?order (?order ! j)" by simp
    with Some have "\<exists>r \<in> set ?order. same_class A r t" unfolding covered_def by blast
    from class_index_found [OF this] have "class_index A ?order t < length ?order" by simp
    with look len j b256 Some show ?thesis by (simp add: transition_def)
  qed
qed

lemma canonical_target:
  assumes live: "\<not> is_dead A (Some (start A))" and j: "j < length (traversal A)"
    and t: "live_target A (traversal A ! j) b = Some t"
  shows "class_index A (traversal A) t < length (traversal A)
     \<and> same_class A (traversal A ! class_index A (traversal A) t) t"
proof -
  from traversal_props(4) [OF live] j have "covered A (traversal A) (traversal A ! j)" by simp
  with t have "\<exists>r \<in> set (traversal A). same_class A r t" unfolding covered_def by blast
  then show ?thesis by (rule class_index_found)
qed

lemma is_accepting_canonical:
  assumes live: "\<not> is_dead A (Some (start A))" and j: "j < length (traversal A)"
  shows "is_accepting (canonicalise A) (Some j) = is_accepting A (Some (traversal A ! j))"
proof -
  from traversal_props(3) [OF live] j have "alive A (traversal A ! j)"
    unfolding good_def by simp
  then have "traversal A ! j < length (tables A)" by (rule alive_range)
  with j show ?thesis by (simp add: is_accepting_def canonicalise_live [OF live])
qed

lemma accepts_canonical:
  assumes live: "\<not> is_dead A (Some (start A))"
  shows "j < length (traversal A)
     \<Longrightarrow> accepts_from (canonicalise A) (Some j) w = accepts_from A (Some (traversal A ! j)) w"
proof (induction w arbitrary: j)
  case Nil
  then show ?case by (simp add: is_accepting_canonical [OF live])
next
  case (Cons b w)
  show ?case
  proof (cases "live_target A (traversal A ! j) b")
    case None
    then have "\<not> accepts_from A (transition A (Some (traversal A ! j)) b) w"
      by (simp add: live_target_None)
    with None Cons.prems show ?thesis by (simp add: transition_canonical [OF live])
  next
    case (Some t)
    from canonical_target [OF live Cons.prems Some]
    have c: "class_index A (traversal A) t < length (traversal A)"
      and e: "same_class A (traversal A ! class_index A (traversal A) t) t" by simp_all
    from Some have t: "transition A (Some (traversal A ! j)) b = Some t"
      by (simp add: live_target_Some)
    from Cons.IH [OF c] same_class_accepts [OF e, of w] t Some Cons.prems
    show ?thesis by (simp add: transition_canonical [OF live])
  qed
qed

lemma matches_canonical: "matches (canonicalise A) w = matches A w"
proof (cases "is_dead A (Some (start A))")
  case True
  then have "\<not> matches A w" by (simp add: matches_accepts is_dead_iff)
  moreover have "\<not> is_accepting (canonicalise A) s" for s
    by (cases s) (simp_all add: canonicalise_dead [OF True] is_accepting_def)
  ultimately show ?thesis by (simp add: matches_def)
next
  case False
  from traversal_props(1,2) [OF False] have "0 < length (traversal A)" "traversal A ! 0 = start A"
    by simp_all
  with accepts_canonical [OF False, of 0 w] show ?thesis
    by (simp add: matches_accepts canonicalise_live [OF False])
qed

lemma tables_canonical:
  "\<not> is_dead A (Some (start A)) \<Longrightarrow> length (tables (canonicalise A)) = length (traversal A)"
  by (simp add: canonicalise_live)

lemma traversal_alive:
  "\<not> is_dead A (Some (start A)) \<Longrightarrow> j < length (traversal A) \<Longrightarrow> alive A (traversal A ! j)"
  using traversal_props(3) [of A] unfolding good_def by simp

lemma alive_canonical:
  assumes live: "\<not> is_dead A (Some (start A))" and j: "j < length (traversal A)"
  shows "alive (canonicalise A) j"
proof -
  from traversal_alive [OF live j] obtain w where "accepts_from A (Some (traversal A ! j)) w"
    unfolding alive_def by blast
  then have "accepts_from (canonicalise A) (Some j) w"
    by (simp add: accepts_canonical [OF live j])
  then show ?thesis unfolding alive_def by blast
qed

lemma live_target_canonical:
  assumes live: "\<not> is_dead A (Some (start A))" and j: "j < length (traversal A)"
  shows "live_target (canonicalise A) j b
     = map_option (class_index A (traversal A)) (live_target A (traversal A ! j) b)"
proof (cases "live_target A (traversal A ! j) b")
  case None
  with transition_canonical [OF live j, of b] show ?thesis
    by (simp add: live_target_def)
next
  case (Some t)
  from canonical_target [OF live j Some]
  have "class_index A (traversal A) t < length (traversal A)" by simp
  from alive_canonical [OF live this]
  have al: "alive (canonicalise A) (class_index A (traversal A) t)" .
  from transition_canonical [OF live j, of b] Some
  have "transition (canonicalise A) (Some j) b = Some (class_index A (traversal A) t)" by simp
  with al have "live_target (canonicalise A) j b = Some (class_index A (traversal A) t)"
    by (simp add: live_target_Some)
  with Some show ?thesis by simp
qed

lemma same_class_canonical:
  assumes live: "\<not> is_dead A (Some (start A))"
    and i: "i < length (traversal A)" and j: "j < length (traversal A)"
  shows "same_class (canonicalise A) i j \<longleftrightarrow> same_class A (traversal A ! i) (traversal A ! j)"
proof -
  from traversal_alive [OF live i] traversal_alive [OF live j]
  have "traversal A ! i < length (tables A)" "traversal A ! j < length (tables A)"
    by (simp_all add: alive_range)
  with i j show ?thesis
    by (simp add: same_class_iff nerode_def tables_canonical [OF live] accepts_canonical [OF live])
qed

lemma same_class_traversal:
  assumes live: "\<not> is_dead A (Some (start A))"
    and i: "i < length (traversal A)" and j: "j < length (traversal A)"
    and e: "same_class A (traversal A ! i) (traversal A ! j)"
  shows "i = j"
  using traversal_props(3) [OF live] i j e unfolding good_def by blast

lemma related_step:
  assumes live: "\<not> is_dead A (Some (start A))"
    and vis: "list_all2 (related A) visB visA" and jt: "related A j t"
  shows "list_all2 (related A) (discover_step (canonicalise A) j b visB) (discover_step A t b visA)"
proof -
  let ?order = "traversal A"
  let ?B = "canonicalise A"
  from jt have j: "j < length ?order" and e: "same_class A (?order ! j) t"
    by (simp_all add: related_def)
  show ?thesis
  proof (cases "live_target A t b")
    case None
    from live_target_equiv_None [OF e None] have "live_target A (?order ! j) b = None" .
    then have "live_target ?B j b = None" by (simp add: live_target_canonical [OF live j])
    with None vis show ?thesis by (simp add: discover_step_def)
  next
    case (Some t')
    from live_target_equiv [OF e Some] obtain t''
      where t'': "live_target A (?order ! j) b = Some t''" and e'': "same_class A t'' t'" by blast
    let ?j' = "class_index A ?order t''"
    from canonical_target [OF live j t'']
    have j': "?j' < length ?order" and ej': "same_class A (?order ! ?j') t''" by simp_all
    have tb: "live_target ?B j b = Some ?j'"
      by (simp add: live_target_canonical [OF live j] t'')
    from j' same_class_trans [OF ej' e''] have rel: "related A ?j' t'" by (simp add: related_def)
    have known: "(\<exists>r \<in> set visB. same_class ?B r ?j') \<longleftrightarrow> (\<exists>r \<in> set visA. same_class A r t')"
    proof
      assume "\<exists>r \<in> set visB. same_class ?B r ?j'"
      then obtain k where k: "k < length visB" and ek: "same_class ?B (visB ! k) ?j'"
        by (auto simp: in_set_conv_nth)
      from vis k have r: "related A (visB ! k) (visA ! k)" and ka: "k < length visA"
        by (simp_all add: list_all2_conv_all_nth)
      then have rk: "visB ! k < length ?order" and erk: "same_class A (?order ! (visB ! k)) (visA ! k)"
        by (simp_all add: related_def)
      from ek have "same_class A (?order ! (visB ! k)) (?order ! ?j')"
        by (simp add: same_class_canonical [OF live rk j'])
      from same_class_trans [OF same_class_sym [OF erk] same_class_trans [OF this same_class_trans [OF ej' e'']]]
      have "same_class A (visA ! k) t'" .
      with ka show "\<exists>r \<in> set visA. same_class A r t'" using nth_mem by blast
    next
      assume "\<exists>r \<in> set visA. same_class A r t'"
      then obtain k where k: "k < length visA" and ek: "same_class A (visA ! k) t'"
        by (auto simp: in_set_conv_nth)
      from vis k have r: "related A (visB ! k) (visA ! k)" and kb: "k < length visB"
        by (simp_all add: list_all2_conv_all_nth)
      then have rk: "visB ! k < length ?order" and erk: "same_class A (?order ! (visB ! k)) (visA ! k)"
        by (simp_all add: related_def)
      from same_class_trans [OF erk same_class_trans [OF ek same_class_sym [OF same_class_trans [OF ej' e'']]]]
      have "same_class A (?order ! (visB ! k)) (?order ! ?j')" .
      then have "same_class ?B (visB ! k) ?j'" by (simp add: same_class_canonical [OF live rk j'])
      with kb show "\<exists>r \<in> set visB. same_class ?B r ?j'" using nth_mem by blast
    qed
    show ?thesis
    proof (cases "\<exists>r \<in> set visA. same_class A r t'")
      case True
      with known have "\<exists>r \<in> set visB. same_class ?B r ?j'" by simp
      with True Some tb vis show ?thesis by (simp add: discover_step_def)
    next
      case False
      with known have "\<not> (\<exists>r \<in> set visB. same_class ?B r ?j')" by simp
      with False Some tb have "discover_step ?B j b visB = visB @ [?j']"
        "discover_step A t b visA = visA @ [t']"
        by (simp_all add: discover_step_def)
      with vis rel show ?thesis by (simp add: list_all2_appendI)
    qed
  qed
qed

lemma related_fold:
  assumes live: "\<not> is_dead A (Some (start A))" and jt: "related A j t"
  shows "list_all2 (related A) visB visA
     \<Longrightarrow> list_all2 (related A) (fold (discover_step (canonicalise A) j) bs visB)
           (fold (discover_step A t) bs visA)"
proof (induction bs arbitrary: visB visA)
  case Nil
  then show ?case by simp
next
  case (Cons b bs)
  from related_step [OF live Cons.prems jt]
  have "list_all2 (related A) (discover_step (canonicalise A) j b visB) (discover_step A t b visA)" .
  from Cons.IH [OF this] show ?case by simp
qed

lemma related_explore:
  assumes live: "\<not> is_dead A (Some (start A))"
  shows "list_all2 (related A) visB visA
     \<Longrightarrow> list_all2 (related A) (explore (canonicalise A) f visB i) (explore A f visA i)"
proof (induction f arbitrary: visB visA i)
  case 0
  then show ?case by simp
next
  case (Suc f)
  from Suc.prems have len: "length visB = length visA" by (rule list_all2_lengthD)
  show ?case
  proof (cases "i < length visA")
    case True
    with Suc.prems len have "related A (visB ! i) (visA ! i)"
      by (simp add: list_all2_conv_all_nth)
    from related_fold [OF live this Suc.prems]
    have "list_all2 (related A) (discover (canonicalise A) visB (visB ! i))
        (discover A visA (visA ! i))"
      by (simp add: discover_def)
    from Suc.IH [OF this] True len show ?thesis by simp
  next
    case False
    with Suc.prems len show ?thesis by simp
  qed
qed

lemma traversal_canonical:
  assumes live: "\<not> is_dead A (Some (start A))"
  shows "traversal (canonicalise A) = [0..<length (traversal A)]"
proof -
  let ?order = "traversal A"
  let ?B = "canonicalise A"
  let ?n = "length (tables A)"
  let ?X = "explore ?B ?n [0] 0"
  from traversal_props [OF live] have ne: "?order \<noteq> []" and s: "?order ! 0 = start A"
    and len: "length ?order \<le> ?n" by simp_all
  from ne have pos: "0 < length ?order" by simp
  from live have "alive A (start A)" by (simp add: is_dead_iff alive_def)
  then have "same_class A (start A) (start A)" by (intro same_class_refl alive_range)
  with pos s have "related A 0 (start A)" by (simp add: related_def)
  then have "list_all2 (related A) [0] [start A]" by simp
  from related_explore [OF live this, of ?n 0] live
  have rel: "list_all2 (related A) ?X ?order" by (simp add: traversal_def)
  then have lenX: "length ?X = length ?order" by (rule list_all2_lengthD)
  have nth: "?X ! k = k" if k: "k < length ?order" for k
  proof -
    from rel k lenX have "related A (?X ! k) (?order ! k)" by (simp add: list_all2_conv_all_nth)
    then have "?X ! k < length ?order" "same_class A (?order ! (?X ! k)) (?order ! k)"
      by (simp_all add: related_def)
    with k show ?thesis using same_class_traversal [OF live] by blast
  qed
  have X: "?X = [0..<length ?order]"
    by (rule nth_equalityI) (simp_all add: lenX nth)
  have "explore ?B (length ?order) [0] 0 = ?X"
    by (rule explore_fuel) (simp_all add: len lenX)
  moreover have "start ?B = 0" by (simp add: canonicalise_live [OF live])
  moreover from alive_canonical [OF live pos] have "\<not> is_dead ?B (Some 0)"
    by (simp add: is_dead_iff alive_def)
  ultimately show ?thesis
    using X by (simp add: traversal_def tables_canonical [OF live])
qed

lemma class_index_canonical:
  assumes live: "\<not> is_dead A (Some (start A))" and j: "j < length (traversal A)"
  shows "class_index (canonicalise A) [0..<length (traversal A)] j = j"
proof -
  let ?B = "canonicalise A"
  let ?xs = "[0..<length (traversal A)]"
  from j have "j < length (tables ?B)" by (simp add: tables_canonical [OF live])
  then have "same_class ?B j j" by (rule same_class_refl)
  with j have ex: "\<exists>r \<in> set ?xs. same_class ?B r j" by auto
  from class_index_found [OF ex]
  have c: "class_index ?B ?xs j < length (traversal A)" by simp
  from class_index_found [OF ex]
  have e: "same_class ?B (?xs ! class_index ?B ?xs j) j" by blast
  from c have "?xs ! class_index ?B ?xs j = class_index ?B ?xs j" by simp
  with e have "same_class ?B (class_index ?B ?xs j) j" by simp
  with c j have "same_class A (traversal A ! class_index ?B ?xs j) (traversal A ! j)"
    by (simp add: same_class_canonical [OF live])
  from same_class_traversal [OF live c j this] show ?thesis .
qed

lemma row_canonical:
  assumes live: "\<not> is_dead A (Some (start A))" and j: "j < length (traversal A)"
  shows "row (canonicalise A) [0..<length (traversal A)] j = row A (traversal A) (traversal A ! j)"
proof -
  let ?order = "traversal A"
  let ?B = "canonicalise A"
  have "(case live_target ?B j b of None \<Rightarrow> []
          | Some t \<Rightarrow> [(b, class_index ?B [0..<length ?order] t)])
      = (case live_target A (?order ! j) b of None \<Rightarrow> []
          | Some t \<Rightarrow> [(b, class_index A ?order t)])" for b
  proof (cases "live_target A (?order ! j) b")
    case None
    then show ?thesis by (simp add: live_target_canonical [OF live j])
  next
    case (Some t)
    from canonical_target [OF live j Some]
    have "class_index A ?order t < length ?order" by simp
    from class_index_canonical [OF live this] Some show ?thesis
      by (simp add: live_target_canonical [OF live j])
  qed
  then show ?thesis by (simp add: row_def)
qed

lemma canonicalise_idem: "canonicalise (canonicalise A) = canonicalise A"
proof (cases "is_dead A (Some (start A))")
  case True
  let ?T = "\<lparr>tables = [Dense []], start = 0, accepting = {}\<rparr> :: dfa"
  have "\<not> accepts_from ?T s w" for s w
    by (simp add: accepts_from_def is_accepting_def split: option.splits)
  then have "is_dead ?T (Some (start ?T))" by (simp add: is_dead_iff)
  then have "canonicalise ?T = ?T" by (rule canonicalise_dead)
  with canonicalise_dead [OF True] show ?thesis by simp
next
  case False
  let ?order = "traversal A"
  let ?B = "canonicalise A"
  let ?m = "length ?order"
  from traversal_props(1) [OF False] have pos: "0 < ?m" by simp
  from alive_canonical [OF False pos] have liveB: "\<not> is_dead ?B (Some (start ?B))"
    by (simp add: is_dead_iff alive_def canonicalise_live [OF False])
  have trB: "traversal ?B = [0..<?m]" by (rule traversal_canonical [OF False])
  have tabs: "map (\<lambda>q. Dense (row ?B [0..<?m] q)) [0..<?m] = map (\<lambda>q. Dense (row A ?order q)) ?order"
  proof (rule nth_equalityI)
    show "length (map (\<lambda>q. Dense (row ?B [0..<?m] q)) [0..<?m])
        = length (map (\<lambda>q. Dense (row A ?order q)) ?order)" by simp
  next
    fix i assume "i < length (map (\<lambda>q. Dense (row ?B [0..<?m] q)) [0..<?m])"
    then have i: "i < ?m" by simp
    with row_canonical [OF False i]
    show "map (\<lambda>q. Dense (row ?B [0..<?m] q)) [0..<?m] ! i
        = map (\<lambda>q. Dense (row A ?order q)) ?order ! i" by simp
  qed
  have accB: "accepting ?B = set (filter (\<lambda>i. ?order ! i \<in> accepting A) [0..<?m])"
    by (simp add: canonicalise_live [OF False])
  have acc: "set (filter (\<lambda>i. [0..<?m] ! i \<in> accepting ?B) [0..<?m]) = accepting ?B"
    unfolding accB by auto
  have "canonicalise ?B =
     \<lparr>tables = map (\<lambda>q. Dense (row ?B [0..<?m] q)) [0..<?m], start = 0,
      accepting = set (filter (\<lambda>i. [0..<?m] ! i \<in> accepting ?B) [0..<?m])\<rparr>"
    using canonicalise_live [OF liveB] by (simp add: trB)
  also have "\<dots> = \<lparr>tables = map (\<lambda>q. Dense (row A ?order q)) ?order, start = 0,
      accepting = accepting ?B\<rparr>"
    by (simp only: tabs acc)
  also have "\<dots> = ?B" by (simp add: canonicalise_live [OF False])
  finally show ?thesis .
qed

lemma pair_successors_iff:
  "x \<in> set (pair_successors A B P)
     \<longleftrightarrow> (\<exists>p q b. (p, q) \<in> set P \<and> b \<in> set byte_values
            \<and> x = (transition A p b, transition B q b))"
  unfolding pair_successors_def by auto

lemma fresh_pairs_iff:
  "x \<in> set (fresh_pairs A B P) \<longleftrightarrow> x \<in> set (pair_successors A B P) \<and> x \<notin> set P"
  by (auto simp: fresh_pairs_def)

lemma forward_sound:
  "\<forall>x \<in> set P. \<exists>w. x = (run A s w, run B s' w)
     \<Longrightarrow> \<forall>x \<in> set (forward A B P). \<exists>w. x = (run A s w, run B s' w)"
proof (induction A B P rule: forward.induct)
  case (1 A B P)
  show ?case
  proof (cases "fresh_pairs A B P = []")
    case True
    with "1.prems" show ?thesis by (simp add: forward.simps [of A B P])
  next
    case False
    have "\<forall>x \<in> set (P @ fresh_pairs A B P). \<exists>w. x = (run A s w, run B s' w)"
    proof
      fix x assume "x \<in> set (P @ fresh_pairs A B P)"
      then consider "x \<in> set P" | "x \<in> set (pair_successors A B P)"
        by (auto simp: fresh_pairs_iff)
      then show "\<exists>w. x = (run A s w, run B s' w)"
      proof cases
        case 1
        with "1.prems" show ?thesis by blast
      next
        case 2
        then obtain p q b where pq: "(p, q) \<in> set P"
          and x: "x = (transition A p b, transition B q b)"
          unfolding pair_successors_iff by blast
        from pq "1.prems" obtain w where "(p, q) = (run A s w, run B s' w)" by blast
        with x have "x = (run A s (w @ [b]), run B s' (w @ [b]))"
          by (simp add: run_append)
        then show ?thesis by blast
      qed
    qed
    from "1.IH" [OF False this] False show ?thesis by (simp add: forward.simps [of A B P])
  qed
qed

lemma forward_superset: "set P \<subseteq> set (forward A B P)"
proof (induction A B P rule: forward.induct)
  case (1 A B P)
  show ?case
  proof (cases "fresh_pairs A B P = []")
    case True
    then show ?thesis by (simp add: forward.simps [of A B P])
  next
    case False
    from "1.IH" [OF False] False show ?thesis by (auto simp: forward.simps [of A B P])
  qed
qed

lemma forward_closed: "set (pair_successors A B (forward A B P)) \<subseteq> set (forward A B P)"
proof (induction A B P rule: forward.induct)
  case (1 A B P)
  show ?case
  proof (cases "fresh_pairs A B P = []")
    case True
    have "set (pair_successors A B P) \<subseteq> set P"
    proof
      fix x assume x: "x \<in> set (pair_successors A B P)"
      show "x \<in> set P"
      proof (rule ccontr)
        assume "x \<notin> set P"
        with x have "x \<in> set (fresh_pairs A B P)" by (simp add: fresh_pairs_iff)
        with True show False by simp
      qed
    qed
    with True show ?thesis by (simp add: forward.simps [of A B P])
  next
    case False
    from "1.IH" [OF False] False show ?thesis by (simp add: forward.simps [of A B P])
  qed
qed

lemma joint_reachable_run:
  "(run A (Some (start A)) w, run B (Some (start B)) w) \<in> set (joint_reachable A B)
   \<or> (run A (Some (start A)) w = None \<and> run B (Some (start B)) w = None)"
proof (induction w rule: rev_induct)
  case Nil
  have "(Some (start A), Some (start B)) \<in> set [(Some (start A), Some (start B))]" by simp
  with forward_superset [of "[(Some (start A), Some (start B))]" A B]
  show ?case unfolding joint_reachable_def by auto
next
  case (snoc b w)
  let ?p = "run A (Some (start A)) w" and ?q = "run B (Some (start B)) w"
  from snoc consider "(?p, ?q) \<in> set (joint_reachable A B)" "b \<in> set byte_values"
    | "b \<notin> set byte_values" | "?p = None \<and> ?q = None" by blast
  then show ?case
  proof cases
    case 1
    then have "(transition A ?p b, transition B ?q b) \<in> set (pair_successors A B (joint_reachable A B))"
      unfolding pair_successors_iff by blast
    with forward_closed [of A B "[(Some (start A), Some (start B))]"]
    have "(transition A ?p b, transition B ?q b) \<in> set (joint_reachable A B)"
      unfolding joint_reachable_def by blast
    then show ?thesis by (simp add: run_append)
  next
    case 2
    then have nb: "\<not> b < 256" by (simp add: byte_values_iff)
    have "transition C s b = None" for C s
      using nb by (cases s) (simp_all add: transition_def)
    then show ?thesis by (simp add: run_append)
  next
    case 3
    then show ?thesis by (simp add: run_append)
  qed
qed

lemma equivalent_iff: "equivalent A B \<longleftrightarrow> (\<forall>w. matches A w = matches B w)"
proof
  assume eq: "equivalent A B"
  show "\<forall>w. matches A w = matches B w"
  proof
    fix w
    from joint_reachable_run [of A w B] show "matches A w = matches B w"
    proof
      assume "(run A (Some (start A)) w, run B (Some (start B)) w) \<in> set (joint_reachable A B)"
      with eq show ?thesis unfolding equivalent_def matches_def by blast
    next
      assume "run A (Some (start A)) w = None \<and> run B (Some (start B)) w = None"
      then show ?thesis by (simp add: matches_def is_accepting_def)
    qed
  qed
next
  assume lang: "\<forall>w. matches A w = matches B w"
  have "\<forall>x \<in> set [(Some (start A), Some (start B))].
      \<exists>w. x = (run A (Some (start A)) w, run B (Some (start B)) w)"
  proof
    fix x assume "x \<in> set [(Some (start A), Some (start B))]"
    then have "x = (run A (Some (start A)) [], run B (Some (start B)) [])" by simp
    then show "\<exists>w. x = (run A (Some (start A)) w, run B (Some (start B)) w)" by blast
  qed
  from forward_sound [OF this]
  have reach: "\<forall>x \<in> set (joint_reachable A B).
      \<exists>w. x = (run A (Some (start A)) w, run B (Some (start B)) w)"
    unfolding joint_reachable_def .
  have "is_accepting A p = is_accepting B q" if "(p, q) \<in> set (joint_reachable A B)" for p q
  proof -
    from reach that obtain w where "(p, q) = (run A (Some (start A)) w, run B (Some (start B)) w)"
      by blast
    with lang show ?thesis by (simp add: matches_def)
  qed
  then show "equivalent A B" unfolding equivalent_def by blast
qed

lemma equivalent_canonicalise: "equivalent A (canonicalise A)"
  by (simp add: equivalent_iff matches_canonical)

text \<open>
  C4: for every automaton \<open>A\<close>, \<open>canonicalise(canonicalise(A))\<close> is the automaton
  \<open>canonicalise(A)\<close> itself, so that their textual encodings are identical, and
  \<open>A.equivalent(canonicalise(A))\<close> is true. What the two operations are is part of the
  statement: \<open>canonicalise(A)\<close> matches exactly the strings that \<open>A\<close> matches, and
  \<open>equivalent\<close> holds of two automata exactly when they match the same strings.
\<close>

theorem canonicalise_idempotent:
  "canonicalise (canonicalise A) = canonicalise A
   \<and> encode (canonicalise (canonicalise A)) = encode (canonicalise A)
   \<and> equivalent A (canonicalise A)
   \<and> (\<forall>w. matches (canonicalise A) w = matches A w)
   \<and> (equivalent A B \<longleftrightarrow> (\<forall>w. matches A w = matches B w))"
  by (simp add: canonicalise_idem matches_canonical equivalent_iff)

theorem canonicalise_idempotent_witness:
  "canonicalise (canonicalise example_dfa) = canonicalise example_dfa
   \<and> encode (canonicalise (canonicalise example_dfa)) = encode (canonicalise example_dfa)
   \<and> equivalent example_dfa (canonicalise example_dfa)
   \<and> matches (canonicalise example_dfa) [1, 1]
   \<and> \<not> matches (canonicalise example_dfa) [1]"
  using canonicalise_idempotent [of example_dfa example_dfa] example_language by simp

end
